theory Spec2Isabelle
  imports Main "HOL-Library.Sublist"
begin

section \<open>Python string operations used by the daemon\<close>

text \<open>
  Strings are character lists. The three library operations the download helper applies
  to a fetch location are written out: the substring test \<^verbatim>\<open>sub in s\<close>,
  \<^verbatim>\<open>s.replace(old, new)\<close> and \<^verbatim>\<open>s.split(sep)\<close>, each scanning from the left and
  never looking again at characters that an earlier match consumed.
\<close>

fun contains :: "string \<Rightarrow> string \<Rightarrow> bool" where
  "contains sub [] = (sub = [])"
| "contains sub (c # cs) = (prefix sub (c # cs) \<or> contains sub cs)"

fun replace :: "string \<Rightarrow> string \<Rightarrow> string \<Rightarrow> string" where
  "replace [] new s = new @ concat (map (\<lambda>c. c # new) s)"
| "replace (a # as) new [] = []"
| "replace (a # as) new (c # cs) =
     (if prefix (a # as) (c # cs)
      then new @ replace (a # as) new (drop (length as) cs)
      else c # replace (a # as) new cs)"

text \<open>
  \<^verbatim>\<open>split\<close> with an empty separator raises in Python; the daemon passes literal,
  non-empty separators only, and the model returns the whole string there.
\<close>

fun split :: "string \<Rightarrow> string \<Rightarrow> string list" where
  "split [] s = [s]"
| "split (a # as) [] = [[]]"
| "split (a # as) (c # cs) =
     (if prefix (a # as) (c # cs)
      then [] # split (a # as) (drop (length as) cs)
      else (case split (a # as) cs of
              [] \<Rightarrow> [[c]]
            | p # ps \<Rightarrow> (c # p) # ps))"

text \<open>
  A character is a code point below 256. \<^verbatim>\<open>str.strip()\<close> drops leading and trailing
  whitespace; the whitespace code points in that range are tab, line feed, vertical tab,
  form feed, carriage return, the four separators 28 to 31, the space, the next-line
  control 133 and the no-break space 160.
\<close>

definition isspace :: "char \<Rightarrow> bool" where
  "isspace c = (of_char c \<in> {9, 10, 11, 12, 13, 28, 29, 30, 31, 32, 133, 160 :: nat})"

definition strip :: "string \<Rightarrow> string" where
  "strip s = rev (dropWhile isspace (rev (dropWhile isspace s)))"

text \<open>
  \<^verbatim>\<open>Path.read_text()\<close> opens the file in text mode, where a carriage return followed by a
  line feed, and then every carriage return left, is read as a line feed.
\<close>

definition read_text :: "string \<Rightarrow> string" where
  "read_text content =
     replace [CHR 0x0D] [CHR 0x0A] (replace [CHR 0x0D, CHR 0x0A] [CHR 0x0A] content)"

section \<open>Exceptions\<close>

text \<open>
  The exceptions a cycle can meet, all of them subclasses of \<^verbatim>\<open>Exception\<close>: a missing
  dictionary key, a list index out of range, an operation applied to \<^verbatim>\<open>None\<close>, and
  whatever the outside world raises (network, file system and subprocess failures are
  all \<^verbatim>\<open>OSError\<close>s), carrying its message.
\<close>

datatype exn = KeyError string | IndexError | TypeError | OSError string

fun index :: "'a list \<Rightarrow> nat \<Rightarrow> exn + 'a" where
  "index xs i = (if i < length xs then Inr (xs ! i) else Inl IndexError)"

section \<open>Location rewriting\<close>

text \<open>
  Lines 62 to 66 of \<^verbatim>\<open>_safe_download\<close>: the URL that will be requested for a fetch
  location, or the exception raised while computing it.
\<close>

definition rewrite_url :: "string \<Rightarrow> exn + string" where
  "rewrite_url raw_url =
     (if contains ''github.com'' raw_url then
        (case index (split ''github.com/'' raw_url) 1 of
           Inl e \<Rightarrow> Inl e
         | Inr parts \<Rightarrow>
            (case index (split ''?'' (replace ''/raw/'' ''/'' (replace ''/blob/'' ''/'' parts))) 0 of
               Inl e \<Rightarrow> Inl e
             | Inr parts' \<Rightarrow>
                Inr (''https://raw.githubusercontent.com/'' @ replace ''%2F'' ''/'' parts')))
      else Inr raw_url)"

section \<open>Configuration, commit records and the outside world\<close>

text \<open>
  The module's globals, read once from the environment (lines 32 to 37). The
  \<^verbatim>\<open>PROJECT_ROOT\<close> enters through \<open>project_path\<close> below.
\<close>

record config =
  INTERVAL :: int
  BASE_URL :: string
  GITHUB_REPO :: string
  GITHUB_TOKEN :: string
  BRANCH :: string
  AUTO_PUSH :: bool

text \<open>
  Line 33, the one place where \<^verbatim>\<open>BASE_URL\<close> is mentioned: the value of the environment
  variable, or the default, without trailing slashes.
\<close>

definition rstrip_slash :: "string \<Rightarrow> string" where
  "rstrip_slash s = rev (dropWhile (\<lambda>c. c = CHR ''/'') (rev s))"

definition base_url_setting :: "(string \<rightharpoonup> string) \<Rightarrow> string" where
  "base_url_setting env =
     rstrip_slash (case env ''BASE_URL'' of None \<Rightarrow> ''http://127.0.0.1:8000'' | Some v \<Rightarrow> v)"

text \<open>
  The decoded JSON answer of the commit endpoint: an object whose \<^verbatim>\<open>sha\<close> and
  \<^verbatim>\<open>files\<close> keys may be absent, each changed-file descriptor a dictionary from field
  names to strings.
\<close>

type_synonym descriptor = "string \<rightharpoonup> string"

record commit =
  sha :: "string option"
  files :: "descriptor list option"

record datetime =
  year :: nat
  month :: nat
  day :: nat
  hour :: nat
  minute :: nat
  second :: nat

text \<open>
  What a retrieval leaves behind: the content saved at the destination, or the exception
  raised together with whatever had been written to the destination before it (nothing,
  or a partial file).
\<close>

datatype retrieved = Saved string | Failed exn "string option"

text \<open>
  The behaviour of everything outside the process during one cycle: the commit endpoint
  (request and JSON decoding, lines 53 to 55), \<^verbatim>\<open>PROJECT_ROOT / name\<close>, the creation of a
  destination's parent directories (\<open>None\<close> when it succeeds), \<^verbatim>\<open>urlretrieve\<close>,
  \<^verbatim>\<open>subprocess.run\<close> with \<^verbatim>\<open>check=False\<close> (the exit status, or the exception raised when
  the command cannot be started), and the clock. Within one cycle the outside answers
  a call by its arguments; from one cycle to the next it may change, and the daemon is
  given one world for each turn of its loop.
\<close>

record world =
  urlopen_json :: "string \<Rightarrow> (string \<times> string) list \<Rightarrow> exn + commit"
  project_path :: "string \<Rightarrow> string"
  mkdir_parents :: "string \<Rightarrow> exn option"
  urlretrieve :: "string \<Rightarrow> string \<Rightarrow> retrieved"
  subprocess_run :: "string list \<Rightarrow> exn + int"
  utcnow :: datetime

section \<open>State and observable effects\<close>

text \<open>
  The daemon's console lines, one constructor per \<^verbatim>\<open>print\<close> statement, with the
  values the line is formatted from; the elapsed time of the "sync complete" line is
  left out.
\<close>

datatype logline =
    DaemonOnline
  | NoNewCommits string
  | Fetching string
  | DownloadFailed string exn
  | Updated string
  | SyncComplete
  | AutoPushed string
  | PushFailed exn
  | Error exn
  | Traceback exn

text \<open>
  Every call that leaves the process, in the order the calls are made: a console line,
  the request to the commit endpoint (URL and headers), the creation of the parent
  directories of a destination, a retrieval (URL and destination), the write of the
  state file, a subprocess (its argument list), and the sleep.
\<close>

datatype event =
    Print logline
  | Urlopen string "(string \<times> string) list"
  | Mkdir string
  | Urlretrieve string string
  | WriteText string
  | Run "string list"
  | Sleep int

text \<open>
  The files of the working tree (path to content), the content of the state file
  \<^verbatim>\<open>COMMIT_FILE\<close> (\<open>None\<close> while it does not exist), and the effects so far.
\<close>

record state =
  tree :: "string \<rightharpoonup> string"
  commit_file :: "string option"
  trace :: "event list"

definition emit :: "event \<Rightarrow> state \<Rightarrow> state" where
  "emit e st = st\<lparr>trace := trace st @ [e]\<rparr>"

text \<open>A block of code either runs to its end or raises; both keep the effects made.\<close>

datatype outcome = Done state | Raised exn state

section \<open>Helpers\<close>

text \<open>
  \<^verbatim>\<open>_headers\<close>, \<^verbatim>\<open>_fetch_commit\<close>, \<^verbatim>\<open>_safe_download\<close> and \<^verbatim>\<open>_git_push_auto\<close>. In the
  download helper the parent directories are created before the \<^verbatim>\<open>try\<close> (line 59), so
  an exception of that call leaves the helper; everything from the rewriting of the
  location to the retrieval is inside it, and an exception there is logged and
  swallowed.
\<close>

definition headers :: "config \<Rightarrow> (string \<times> string) list" where
  "headers cfg =
     (if GITHUB_TOKEN cfg \<noteq> [] then [(''Authorization'', ''token '' @ GITHUB_TOKEN cfg)] else [])"

definition commit_url :: "config \<Rightarrow> string" where
  "commit_url cfg =
     ''https://api.github.com/repos/'' @ GITHUB_REPO cfg @ ''/commits/'' @ BRANCH cfg"

definition fetch_commit :: "config \<Rightarrow> world \<Rightarrow> state \<Rightarrow> (exn + commit) \<times> state" where
  "fetch_commit cfg w st =
     (urlopen_json w (commit_url cfg) (headers cfg),
      emit (Urlopen (commit_url cfg) (headers cfg)) st)"

definition safe_download :: "world \<Rightarrow> string \<Rightarrow> string \<Rightarrow> state \<Rightarrow> outcome" where
  "safe_download w raw_url dest st =
     (let st1 = emit (Mkdir dest) st in
      case mkdir_parents w dest of
        Some e \<Rightarrow> Raised e st1
      | None \<Rightarrow>
         (case rewrite_url raw_url of
            Inl e \<Rightarrow> Done (emit (Print (DownloadFailed raw_url e)) st1)
          | Inr url \<Rightarrow>
             (let st2 = emit (Urlretrieve url dest) (emit (Print (Fetching url)) st1) in
              case urlretrieve w url dest of
                Saved content \<Rightarrow> Done (st2\<lparr>tree := (tree st2)(dest \<mapsto> content)\<rparr>)
              | Failed e partial \<Rightarrow>
                 Done (emit (Print (DownloadFailed raw_url e))
                        (st2\<lparr>tree := (case partial of
                                         None \<Rightarrow> tree st2
                                       | Some c \<Rightarrow> (tree st2)(dest \<mapsto> c))\<rparr>)))))"

text \<open>
  \<^verbatim>\<open>strftime("%Y-%m-%d %H:%M:%S")\<close> on a date of the current era (a four-digit year).
\<close>

definition digit :: "nat \<Rightarrow> char" where
  "digit n = ''0123456789'' ! (n mod 10)"

definition pad2 :: "nat \<Rightarrow> string" where
  "pad2 n = [digit (n div 10), digit n]"

definition pad4 :: "nat \<Rightarrow> string" where
  "pad4 n = [digit (n div 1000), digit (n div 100), digit (n div 10), digit n]"

definition strftime :: "datetime \<Rightarrow> string" where
  "strftime t =
     pad4 (year t) @ ''-'' @ pad2 (month t) @ ''-'' @ pad2 (day t) @ '' '' @
     pad2 (hour t) @ '':'' @ pad2 (minute t) @ '':'' @ pad2 (second t)"

definition push_message :: "world \<Rightarrow> string" where
  "push_message w = ''Automated patch sync: '' @ strftime (utcnow w)"

definition push_cmds :: "config \<Rightarrow> string \<Rightarrow> string list list" where
  "push_cmds cfg msg =
     [[''git'', ''config'', ''--global'', ''user.email'', ''auto@prosperitytoolbox.dev''],
      [''git'', ''config'', ''--global'', ''user.name'', ''AutoSync Daemon''],
      [''git'', ''pull'',
       ''https://'' @ GITHUB_TOKEN cfg @ ''@github.com/'' @ GITHUB_REPO cfg @ ''.git'',
       BRANCH cfg, ''--rebase''],
      [''git'', ''add'', ''.''],
      [''git'', ''commit'', ''-m'', msg],
      [''git'', ''push'',
       ''https://'' @ GITHUB_TOKEN cfg @ ''@github.com/'' @ GITHUB_REPO cfg @ ''.git'',
       BRANCH cfg]]"

text \<open>The loop of lines 87 and 88: an exception of \<^verbatim>\<open>subprocess.run\<close> leaves the loop.\<close>

fun run_cmds :: "world \<Rightarrow> string list list \<Rightarrow> state \<Rightarrow> outcome" where
  "run_cmds w [] st = Done st"
| "run_cmds w (cmd # cmds) st =
     (case subprocess_run w cmd of
        Inl e \<Rightarrow> Raised e (emit (Run cmd) st)
      | Inr rc \<Rightarrow> run_cmds w cmds (emit (Run cmd) st))"

definition git_push_auto :: "config \<Rightarrow> world \<Rightarrow> state \<Rightarrow> state" where
  "git_push_auto cfg w st =
     (let msg = push_message w in
      case run_cmds w (push_cmds cfg msg) st of
        Done st' \<Rightarrow> emit (Print (AutoPushed msg)) st'
      | Raised e st' \<Rightarrow> emit (Print (PushFailed e)) st')"

section \<open>Core loop\<close>

definition wanted :: "descriptor \<Rightarrow> bool" where
  "wanted f = (f ''status'' = Some ''added'' \<or> f ''status'' = Some ''modified'')"

text \<open>The \<^verbatim>\<open>for f in files\<close> loop, lines 111 to 115.\<close>

fun sync_files :: "world \<Rightarrow> descriptor list \<Rightarrow> state \<Rightarrow> outcome" where
  "sync_files w [] st = Done st"
| "sync_files w (f # fs) st =
     (if wanted f then
        (case f ''filename'' of
           None \<Rightarrow> Raised (KeyError ''filename'') st
         | Some name \<Rightarrow>
            (case f ''raw_url'' of
               None \<Rightarrow> Raised (KeyError ''raw_url'') st
             | Some raw_url \<Rightarrow>
                (case safe_download w raw_url (project_path w name) st of
                   Raised e st' \<Rightarrow> Raised e st'
                 | Done st' \<Rightarrow> sync_files w fs (emit (Print (Updated name)) st'))))
      else sync_files w fs st)"

text \<open>\<^verbatim>\<open>commit.get("files") or []\<close>, line 110.\<close>

definition changed_files :: "commit \<Rightarrow> descriptor list" where
  "changed_files c = (case files c of None \<Rightarrow> [] | Some fs \<Rightarrow> fs)"

text \<open>
  Line 105: the hash read back from the state file, \<open>None\<close> while the file does not
  exist.
\<close>

definition persisted :: "state \<Rightarrow> string option" where
  "persisted st = map_option (\<lambda>content. strip (read_text content)) (commit_file st)"

text \<open>
  The body of the \<^verbatim>\<open>try\<close>, lines 102 to 120. Slicing or writing a \<^verbatim>\<open>sha\<close> of
  \<^verbatim>\<open>None\<close> is a \<^verbatim>\<open>TypeError\<close>; \<^verbatim>\<open>write_text\<close> checks its argument before it opens
  the file.
\<close>

definition cycle_body :: "config \<Rightarrow> world \<Rightarrow> state \<Rightarrow> outcome" where
  "cycle_body cfg w st =
     (case fetch_commit cfg w st of
        (Inl e, st0) \<Rightarrow> Raised e st0
      | (Inr c, st0) \<Rightarrow>
         (let prev = persisted st0 in
          if sha c = prev then
            (case sha c of
               None \<Rightarrow> Raised TypeError st0
             | Some s \<Rightarrow> Done (emit (Print (NoNewCommits (take 8 s))) st0))
          else
            (case sync_files w (changed_files c) st0 of
               Raised e st1 \<Rightarrow> Raised e st1
             | Done st1 \<Rightarrow>
                (case sha c of
                   None \<Rightarrow> Raised TypeError st1
                 | Some s \<Rightarrow>
                    (let st2 = emit (Print SyncComplete)
                                 (emit (WriteText s) (st1\<lparr>commit_file := Some s\<rparr>)) in
                     Done (if AUTO_PUSH cfg then git_push_auto cfg w st2 else st2))))))"

text \<open>One turn of \<^verbatim>\<open>while True\<close>: the body, the handler of line 122, the sleep.\<close>

definition cycle :: "config \<Rightarrow> world \<Rightarrow> state \<Rightarrow> state" where
  "cycle cfg w st =
     (case cycle_body cfg w st of
        Done st' \<Rightarrow> emit (Sleep (INTERVAL cfg)) st'
      | Raised e st' \<Rightarrow>
         emit (Sleep (INTERVAL cfg)) (emit (Print (Traceback e)) (emit (Print (Error e)) st')))"

text \<open>
  The daemon never leaves its loop by itself, so its behaviour is given turn by turn:
  the state after as many turns as there are worlds in the list, the \<open>i\<close>-th world
  being what the outside does during the \<open>i\<close>-th turn.
\<close>

fun run_autosync_daemon_from :: "config \<Rightarrow> world list \<Rightarrow> state \<Rightarrow> state" where
  "run_autosync_daemon_from cfg [] st = st"
| "run_autosync_daemon_from cfg (w # ws) st = run_autosync_daemon_from cfg ws (cycle cfg w st)"

definition run_autosync_daemon :: "config \<Rightarrow> world list \<Rightarrow> state \<Rightarrow> state" where
  "run_autosync_daemon cfg ws st = run_autosync_daemon_from cfg ws (emit (Print DaemonOnline) st)"

section \<open>Observations on a trace\<close>

text \<open>
  What a trace tells: the destinations the download helper was called on (each call
  starts by creating the parent directories of its destination), the retrievals
  requested, the console lines, the subprocesses, the values written to the state file,
  the URLs requested from the commit endpoint, the sleeps, and the errors logged by the
  handler of the loop.
\<close>

definition attempts :: "event list \<Rightarrow> string list" where
  "attempts tr = List.map_filter (\<lambda>e. case e of Mkdir d \<Rightarrow> Some d | _ \<Rightarrow> None) tr"

definition requests :: "event list \<Rightarrow> (string \<times> string) list" where
  "requests tr = List.map_filter (\<lambda>e. case e of Urlretrieve u d \<Rightarrow> Some (u, d) | _ \<Rightarrow> None) tr"

definition lines :: "event list \<Rightarrow> logline list" where
  "lines tr = List.map_filter (\<lambda>e. case e of Print l \<Rightarrow> Some l | _ \<Rightarrow> None) tr"

definition runs :: "event list \<Rightarrow> string list list" where
  "runs tr = List.map_filter (\<lambda>e. case e of Run c \<Rightarrow> Some c | _ \<Rightarrow> None) tr"

definition writes :: "event list \<Rightarrow> string list" where
  "writes tr = List.map_filter (\<lambda>e. case e of WriteText s \<Rightarrow> Some s | _ \<Rightarrow> None) tr"

definition fetches :: "event list \<Rightarrow> string list" where
  "fetches tr = List.map_filter (\<lambda>e. case e of Urlopen u h \<Rightarrow> Some u | _ \<Rightarrow> None) tr"

definition sleeps :: "event list \<Rightarrow> int list" where
  "sleeps tr = List.map_filter (\<lambda>e. case e of Sleep n \<Rightarrow> Some n | _ \<Rightarrow> None) tr"

definition errors :: "event list \<Rightarrow> exn list" where
  "errors tr = List.map_filter (\<lambda>e. case e of Print (Error x) \<Rightarrow> Some x | _ \<Rightarrow> None) tr"

fun final :: "outcome \<Rightarrow> state" where
  "final (Done st) = st"
| "final (Raised e st) = st"

definition dest_of :: "world \<Rightarrow> descriptor \<Rightarrow> string option" where
  "dest_of w f = map_option (project_path w) (f ''filename'')"

text \<open>
  What one descriptor stands for. It can be processed when it has its file name and its
  fetch location and the parent directories of its destination can be created. The
  retrieval it asks for is that of its rewritten location to its destination, if the
  location can be rewritten. What it leaves in the working tree is the content
  retrieved, or the partial content of a retrieval that failed, at its destination.
\<close>

definition processable :: "world \<Rightarrow> descriptor \<Rightarrow> bool" where
  "processable w f =
     (case f ''filename'' of
        None \<Rightarrow> False
      | Some name \<Rightarrow>
         (case f ''raw_url'' of
            None \<Rightarrow> False
          | Some u \<Rightarrow> mkdir_parents w (project_path w name) = None))"

definition request_of :: "world \<Rightarrow> descriptor \<Rightarrow> (string \<times> string) option" where
  "request_of w f =
     (case f ''filename'' of
        None \<Rightarrow> None
      | Some name \<Rightarrow>
         (case f ''raw_url'' of
            None \<Rightarrow> None
          | Some u \<Rightarrow>
             (case rewrite_url u of
                Inl e \<Rightarrow> None
              | Inr url \<Rightarrow> Some (url, project_path w name))))"

definition stored_by :: "world \<Rightarrow> descriptor \<Rightarrow> (string \<times> string) option" where
  "stored_by w f =
     (case request_of w f of
        None \<Rightarrow> None
      | Some (url, dest) \<Rightarrow>
         (case urlretrieve w url dest of
            Saved content \<Rightarrow> Some (dest, content)
          | Failed e partial \<Rightarrow> map_option (Pair dest) partial))"

section \<open>Example inputs\<close>

text \<open>
  A configuration, a commit with two added files and a removed one, and a family of
  worlds in which the commit endpoint, the retrieval to each destination and every
  subprocess behave as given; the project root is \<^verbatim>\<open>/srv\<close> and directories can
  always be created.
\<close>

definition example_config :: config where
  "example_config =
     \<lparr>INTERVAL = 300, BASE_URL = ''http://localhost:9000'', GITHUB_REPO = ''o/r'',
      GITHUB_TOKEN = [], BRANCH = ''main'', AUTO_PUSH = False\<rparr>"

definition example_file :: descriptor where
  "example_file =
     [''status'' \<mapsto> ''added'', ''filename'' \<mapsto> ''a.txt'',
      ''raw_url'' \<mapsto> ''https://github.com/o/r/raw/abc/a.txt'']"

definition other_file :: descriptor where
  "other_file =
     [''status'' \<mapsto> ''modified'', ''filename'' \<mapsto> ''b.txt'',
      ''raw_url'' \<mapsto> ''https://github.com/o/r/raw/abc/b.txt'']"

definition removed_file :: descriptor where
  "removed_file =
     [''status'' \<mapsto> ''removed'', ''filename'' \<mapsto> ''c.txt'',
      ''raw_url'' \<mapsto> ''https://github.com/o/r/raw/abc/c.txt'']"

definition malformed_file :: descriptor where
  "malformed_file = [''status'' \<mapsto> ''added'', ''filename'' \<mapsto> ''d.txt'']"

definition example_commit :: commit where
  "example_commit = \<lparr>sha = Some ''abc'', files = Some [example_file, removed_file, other_file]\<rparr>"

definition timed_out :: "string \<Rightarrow> retrieved" where
  "timed_out d = (if d = ''/srv/a.txt'' then Failed (OSError ''timed out'') None else Saved ''new'')"

definition example_world :: "(exn + commit) \<Rightarrow> (string \<Rightarrow> retrieved) \<Rightarrow> (exn + int) \<Rightarrow> world" where
  "example_world fetched got status =
     \<lparr>urlopen_json = (\<lambda>u h. fetched),
      project_path = (\<lambda>name. ''/srv/'' @ name),
      mkdir_parents = (\<lambda>d. None),
      urlretrieve = (\<lambda>u d. got d),
      subprocess_run = (\<lambda>cmd. status),
      utcnow = \<lparr>year = 2024, month = 3, day = 9, hour = 7, minute = 5, second = 0\<rparr>\<rparr>"

definition fresh :: state where
  "fresh = \<lparr>tree = Map.empty, commit_file = None, trace = []\<rparr>"

text \<open>
  The commit endpoint times out; the head is the example commit and the retrieval of
  its first file times out; the same with every subprocess exiting with status 1; the
  same with no subprocess that can be started; the example commit where the directory
  for the first file cannot be created and every retrieval would succeed, and where the
  retrieval of the first file times out and the directory for the last cannot be
  created; and a head whose second descriptor has no fetch location.
\<close>

definition offline_world :: world where
  "offline_world = example_world (Inl (OSError ''timed out'')) timed_out (Inr 0)"

definition flaky_world :: world where
  "flaky_world = example_world (Inr example_commit) timed_out (Inr 0)"

definition failing_git_world :: world where
  "failing_git_world = example_world (Inr example_commit) timed_out (Inr 1)"

definition no_git_world :: world where
  "no_git_world = example_world (Inr example_commit) timed_out (Inl (OSError ''No such file or directory''))"

definition blocked_first_world :: world where
  "blocked_first_world =
     (example_world (Inr example_commit) (\<lambda>d. Saved ''new'') (Inr 0))
       \<lparr>mkdir_parents := (\<lambda>d. if d = ''/srv/a.txt'' then Some (OSError ''Permission denied'') else None)\<rparr>"

definition blocked_second_world :: world where
  "blocked_second_world =
     flaky_world
       \<lparr>mkdir_parents := (\<lambda>d. if d = ''/srv/b.txt'' then Some (OSError ''Permission denied'') else None)\<rparr>"

definition malformed_commit :: commit where
  "malformed_commit = \<lparr>sha = Some ''abc'', files = Some [example_file, malformed_file, other_file]\<rparr>"

definition malformed_world :: world where
  "malformed_world = example_world (Inr malformed_commit) (\<lambda>d. Saved ''new'') (Inr 0)"

definition synced :: state where
  "synced = \<lparr>tree = Map.empty, commit_file = Some ''abc'', trace = []\<rparr>"

section \<open>Basic facts\<close>

lemma map_filter_append: "List.map_filter f (xs @ ys) = List.map_filter f xs @ List.map_filter f ys"
  by (simp add: List.map_filter_def)

lemma attempts_append [simp]: "attempts (xs @ ys) = attempts xs @ attempts ys"
  by (simp add: attempts_def map_filter_append)

lemma requests_append [simp]: "requests (xs @ ys) = requests xs @ requests ys"
  by (simp add: requests_def map_filter_append)

lemma lines_append [simp]: "lines (xs @ ys) = lines xs @ lines ys"
  by (simp add: lines_def map_filter_append)

lemma runs_append [simp]: "runs (xs @ ys) = runs xs @ runs ys"
  by (simp add: runs_def map_filter_append)

lemma writes_append [simp]: "writes (xs @ ys) = writes xs @ writes ys"
  by (simp add: writes_def map_filter_append)

lemma fetches_append [simp]: "fetches (xs @ ys) = fetches xs @ fetches ys"
  by (simp add: fetches_def map_filter_append)

lemma sleeps_append [simp]: "sleeps (xs @ ys) = sleeps xs @ sleeps ys"
  by (simp add: sleeps_def map_filter_append)

lemma errors_append [simp]: "errors (xs @ ys) = errors xs @ errors ys"
  by (simp add: errors_def map_filter_append)

lemma attempts_simps [simp]:
  "attempts [] = []"
  "attempts (Mkdir d # tr) = d # attempts tr"
  "attempts (Print l # tr) = attempts tr"
  "attempts (Urlopen u h # tr) = attempts tr"
  "attempts (Urlretrieve u d # tr) = attempts tr"
  "attempts (WriteText s # tr) = attempts tr"
  "attempts (Run c # tr) = attempts tr"
  "attempts (Sleep n # tr) = attempts tr"
  by (simp_all add: attempts_def)

lemma requests_simps [simp]:
  "requests [] = []"
  "requests (Mkdir d # tr) = requests tr"
  "requests (Print l # tr) = requests tr"
  "requests (Urlopen u h # tr) = requests tr"
  "requests (Urlretrieve u d # tr) = (u, d) # requests tr"
  "requests (WriteText s # tr) = requests tr"
  "requests (Run c # tr) = requests tr"
  "requests (Sleep n # tr) = requests tr"
  by (simp_all add: requests_def)

lemma lines_simps [simp]:
  "lines [] = []"
  "lines (Mkdir d # tr) = lines tr"
  "lines (Print l # tr) = l # lines tr"
  "lines (Urlopen u h # tr) = lines tr"
  "lines (Urlretrieve u d # tr) = lines tr"
  "lines (WriteText s # tr) = lines tr"
  "lines (Run c # tr) = lines tr"
  "lines (Sleep n # tr) = lines tr"
  by (simp_all add: lines_def)

lemma runs_simps [simp]:
  "runs [] = []"
  "runs (Mkdir d # tr) = runs tr"
  "runs (Print l # tr) = runs tr"
  "runs (Urlopen u h # tr) = runs tr"
  "runs (Urlretrieve u d # tr) = runs tr"
  "runs (WriteText s # tr) = runs tr"
  "runs (Run c # tr) = c # runs tr"
  "runs (Sleep n # tr) = runs tr"
  by (simp_all add: runs_def)

lemma writes_simps [simp]:
  "writes [] = []"
  "writes (Mkdir d # tr) = writes tr"
  "writes (Print l # tr) = writes tr"
  "writes (Urlopen u h # tr) = writes tr"
  "writes (Urlretrieve u d # tr) = writes tr"
  "writes (WriteText s # tr) = s # writes tr"
  "writes (Run c # tr) = writes tr"
  "writes (Sleep n # tr) = writes tr"
  by (simp_all add: writes_def)

lemma fetches_simps [simp]:
  "fetches [] = []"
  "fetches (Mkdir d # tr) = fetches tr"
  "fetches (Print l # tr) = fetches tr"
  "fetches (Urlopen u h # tr) = u # fetches tr"
  "fetches (Urlretrieve u d # tr) = fetches tr"
  "fetches (WriteText s # tr) = fetches tr"
  "fetches (Run c # tr) = fetches tr"
  "fetches (Sleep n # tr) = fetches tr"
  by (simp_all add: fetches_def)

lemma sleeps_simps [simp]:
  "sleeps [] = []"
  "sleeps (Mkdir d # tr) = sleeps tr"
  "sleeps (Print l # tr) = sleeps tr"
  "sleeps (Urlopen u h # tr) = sleeps tr"
  "sleeps (Urlretrieve u d # tr) = sleeps tr"
  "sleeps (WriteText s # tr) = sleeps tr"
  "sleeps (Run c # tr) = sleeps tr"
  "sleeps (Sleep n # tr) = n # sleeps tr"
  by (simp_all add: sleeps_def)

lemma errors_simps [simp]:
  "errors [] = []"
  "errors (Mkdir d # tr) = errors tr"
  "errors (Print (Error x) # tr) = x # errors tr"
  "errors (Print DaemonOnline # tr) = errors tr"
  "errors (Print (NoNewCommits s) # tr) = errors tr"
  "errors (Print (Fetching u) # tr) = errors tr"
  "errors (Print (DownloadFailed u x) # tr) = errors tr"
  "errors (Print (Updated s) # tr) = errors tr"
  "errors (Print SyncComplete # tr) = errors tr"
  "errors (Print (AutoPushed s) # tr) = errors tr"
  "errors (Print (PushFailed x) # tr) = errors tr"
  "errors (Print (Traceback x) # tr) = errors tr"
  "errors (Urlopen u h # tr) = errors tr"
  "errors (Urlretrieve u d # tr) = errors tr"
  "errors (WriteText s # tr) = errors tr"
  "errors (Run c # tr) = errors tr"
  "errors (Sleep n # tr) = errors tr"
  by (simp_all add: errors_def)

lemma emit_simps [simp]:
  "trace (emit e st) = trace st @ [e]"
  "tree (emit e st) = tree st"
  "commit_file (emit e st) = commit_file st"
  by (simp_all add: emit_def)

lemma persisted_emit [simp]: "persisted (emit e st) = persisted st"
  by (simp add: persisted_def)

subsection \<open>Replacing and splitting at the first occurrence\<close>

text \<open>
  A string without the pattern is left alone, and a pattern that occurs first at a known
  place is replaced, or split at, there.
\<close>

lemma contains_append: "contains s B \<Longrightarrow> contains s (A @ B)"
  by (induction A) auto

lemma prefix_contains: "prefix s t \<Longrightarrow> contains s t"
  by (cases t) auto

lemma replace_Cons:
  "old \<noteq> [] \<Longrightarrow> replace old new (c # cs) =
     (if prefix old (c # cs) then new @ replace old new (drop (length old - 1) cs)
      else c # replace old new cs)"
  by (cases old) simp_all

lemma split_Cons:
  "sep \<noteq> [] \<Longrightarrow> split sep (c # cs) =
     (if prefix sep (c # cs) then [] # split sep (drop (length sep - 1) cs)
      else (case split sep cs of [] \<Rightarrow> [[c]] | p # ps \<Rightarrow> (c # p) # ps))"
  by (cases sep) simp_all

lemma replace_absent: "old \<noteq> [] \<Longrightarrow> \<not> contains old s \<Longrightarrow> replace old new s = s"
proof (induction s)
  case Nil
  then show ?case by (cases old) simp_all
next
  case (Cons c s)
  then show ?case by (simp add: replace_Cons)
qed

lemma split_absent: "sep \<noteq> [] \<Longrightarrow> \<not> contains sep s \<Longrightarrow> split sep s = [s]"
proof (induction s)
  case Nil
  then show ?case by (cases sep) simp_all
next
  case (Cons c s)
  then show ?case by (simp add: split_Cons)
qed

lemma prefix_short: "prefix xs (ys @ zs) \<Longrightarrow> length xs \<le> length ys \<Longrightarrow> prefix xs ys"
  by (metis prefix_length_prefix prefixI)

lemma not_prefix_before:
  assumes "old \<noteq> []" and "\<not> contains old ((c # A) @ butlast old)"
  shows "\<not> prefix old ((c # A) @ old @ B)"
proof
  assume p: "prefix old ((c # A) @ old @ B)"
  have e: "butlast old @ [last old] = old"
    using assms(1) by simp
  have "((c # A) @ butlast old) @ (last old # B) = (c # A) @ (butlast old @ [last old]) @ B"
    by simp
  also have "\<dots> = (c # A) @ old @ B"
    by (simp only: e)
  finally have "prefix old (((c # A) @ butlast old) @ (last old # B))"
    using p by (simp only:)
  moreover have "length old \<le> length ((c # A) @ butlast old)"
    by simp
  ultimately have "prefix old ((c # A) @ butlast old)"
    by (rule prefix_short)
  then have "contains old ((c # A) @ butlast old)"
    by (rule prefix_contains)
  then show False using assms(2) by blast
qed

lemma replace_first:
  "old \<noteq> [] \<Longrightarrow> \<not> contains old (A @ butlast old) \<Longrightarrow>
   replace old new (A @ old @ B) = A @ new @ replace old new B"
proof (induction A)
  case Nil
  then obtain a as where "old = a # as" by (cases old) auto
  then show ?case by simp
next
  case (Cons c A)
  have np: "\<not> prefix old ((c # A) @ old @ B)"
    using Cons.prems by (rule not_prefix_before)
  have "\<not> contains old (A @ butlast old)"
    using Cons.prems(2) by simp
  then have "replace old new (A @ old @ B) = A @ new @ replace old new B"
    using Cons.prems(1) Cons.IH by blast
  then show ?case using np Cons.prems(1) replace_Cons [of old new c "A @ old @ B"] by simp
qed

lemma split_first:
  "sep \<noteq> [] \<Longrightarrow> \<not> contains sep (A @ butlast sep) \<Longrightarrow>
   split sep (A @ sep @ B) = A # split sep B"
proof (induction A)
  case Nil
  then obtain a as where "sep = a # as" by (cases sep) auto
  then show ?case by simp
next
  case (Cons c A)
  have np: "\<not> prefix sep ((c # A) @ sep @ B)"
    using Cons.prems by (rule not_prefix_before)
  have "\<not> contains sep (A @ butlast sep)"
    using Cons.prems(2) by simp
  then have "split sep (A @ sep @ B) = A # split sep B"
    using Cons.prems(1) Cons.IH by blast
  then show ?case using np Cons.prems(1) split_Cons [of sep c "A @ sep @ B"] by simp
qed

subsection \<open>The download helper\<close>


lemma safe_download_Done:
  "mkdir_parents w d = None \<Longrightarrow> \<exists>st'. safe_download w u d st = Done st'"
  by (simp add: safe_download_def Let_def split: option.splits sum.splits retrieved.splits)

lemma safe_download_attempts:
  "attempts (trace (final (safe_download w u d st))) = attempts (trace st) @ [d]"
  by (simp add: safe_download_def Let_def split: option.splits sum.splits retrieved.splits)

lemma safe_download_quiet:
  "writes (trace (final (safe_download w u d st))) = writes (trace st)"
  "errors (trace (final (safe_download w u d st))) = errors (trace st)"
  "sleeps (trace (final (safe_download w u d st))) = sleeps (trace st)"
  "fetches (trace (final (safe_download w u d st))) = fetches (trace st)"
  "runs (trace (final (safe_download w u d st))) = runs (trace st)"
  by (simp_all add: safe_download_def Let_def split: option.splits sum.splits retrieved.splits)




lemma safe_download_requests:
  "\<exists>Y. requests (trace (final (safe_download w u d st))) = requests (trace st) @ Y \<and> set (map snd Y) \<subseteq> {d}"
  by (simp add: safe_download_def Let_def split: option.splits sum.splits retrieved.splits)

lemma sync_files_rel:
  assumes rfl: "\<And>s. R s s"
    and trn: "\<And>a b c. R a b \<Longrightarrow> R b c \<Longrightarrow> R a c"
    and dl: "\<And>u d s. R s (final (safe_download w u d s))"
    and up: "\<And>n s. R s (emit (Print (Updated n)) s)"
  shows "R st (final (sync_files w fs st))"
proof (induction fs arbitrary: st)
  case Nil
  show ?case by (simp add: rfl)
next
  case (Cons f fs)
  show ?case
  proof (cases "wanted f")
    case False
    then show ?thesis using Cons.IH by simp
  next
    case True
    show ?thesis
    proof (cases "f ''filename''")
      case None
      then show ?thesis using True by (simp add: rfl)
    next
      case (Some name)
      note name = Some
      show ?thesis
      proof (cases "f ''raw_url''")
        case None
        then show ?thesis using True name by (simp add: rfl)
      next
        case (Some u)
        show ?thesis
        proof (cases "safe_download w u (project_path w name) st")
          case (Done st')
          have a: "R st st'"
            using dl [of st u "project_path w name"] Done by simp
          have b: "R st' (emit (Print (Updated name)) st')"
            by (rule up)
          have c: "R (emit (Print (Updated name)) st') (final (sync_files w fs (emit (Print (Updated name)) st')))"
            by (rule Cons.IH)
          have "R st (final (sync_files w fs (emit (Print (Updated name)) st')))"
            using a b c trn by blast
          then show ?thesis using True name Some Done by simp
        next
          case (Raised e st')
          have "R st st'"
            using dl [of st u "project_path w name"] Raised by simp
          then show ?thesis using True name Some Raised by simp
        qed
      qed
    qed
  qed
qed


lemma sync_files_writes:
  "writes (trace (final (sync_files w fs st))) = writes (trace st)"
  by (rule sync_files_rel [where R = "\<lambda>a b. writes (trace b) = writes (trace a)"])
     (simp_all add: safe_download_quiet)

lemma sync_files_errors:
  "errors (trace (final (sync_files w fs st))) = errors (trace st)"
  by (rule sync_files_rel [where R = "\<lambda>a b. errors (trace b) = errors (trace a)"])
     (simp_all add: safe_download_quiet)

lemma sync_files_sleeps:
  "sleeps (trace (final (sync_files w fs st))) = sleeps (trace st)"
  by (rule sync_files_rel [where R = "\<lambda>a b. sleeps (trace b) = sleeps (trace a)"])
     (simp_all add: safe_download_quiet)

lemma sync_files_fetches:
  "fetches (trace (final (sync_files w fs st))) = fetches (trace st)"
  by (rule sync_files_rel [where R = "\<lambda>a b. fetches (trace b) = fetches (trace a)"])
     (simp_all add: safe_download_quiet)

lemma sync_files_runs:
  "runs (trace (final (sync_files w fs st))) = runs (trace st)"
  by (rule sync_files_rel [where R = "\<lambda>a b. runs (trace b) = runs (trace a)"])
     (simp_all add: safe_download_quiet)



lemma sync_files_attempts_Done:
  "sync_files w fs st = Done st' \<Longrightarrow>
   map Some (attempts (trace st')) = map Some (attempts (trace st)) @ map (dest_of w) (filter wanted fs)"
proof (induction fs arbitrary: st)
  case Nil
  then show ?case by simp
next
  case (Cons f fs)
  show ?case
  proof (cases "wanted f")
    case False
    then show ?thesis using Cons by simp
  next
    case True
    from Cons.prems True obtain name u st1 where
      n: "f ''filename'' = Some name" and u: "f ''raw_url'' = Some u"
      and d: "safe_download w u (project_path w name) st = Done st1"
      and r: "sync_files w fs (emit (Print (Updated name)) st1) = Done st'"
      by (auto split: option.splits outcome.splits)
    have "attempts (trace st1) = attempts (trace st) @ [project_path w name]"
      using safe_download_attempts [of w u "project_path w name" st] d by simp
    then show ?thesis
      using Cons.IH [OF r] True n by (simp add: dest_of_def)
  qed
qed

lemma sync_files_attempts_prefix:
  "\<exists>X. attempts (trace (final (sync_files w fs st))) = attempts (trace st) @ X \<and>
       prefix (map Some X) (map (dest_of w) (filter wanted fs))"
proof (induction fs arbitrary: st)
  case Nil
  show ?case by simp
next
  case (Cons f fs)
  show ?case
  proof (cases "wanted f")
    case False
    then show ?thesis using Cons.IH by simp
  next
    case True
    show ?thesis
    proof (cases "f ''filename''")
      case None
      then show ?thesis using True by simp
    next
      case (Some name)
      note name = Some
      show ?thesis
      proof (cases "f ''raw_url''")
        case None
        then show ?thesis using True name by simp
      next
        case (Some u)
        have a: "attempts (trace (final (safe_download w u (project_path w name) st))) =
                 attempts (trace st) @ [project_path w name]"
          by (rule safe_download_attempts)
        show ?thesis
        proof (cases "safe_download w u (project_path w name) st")
          case (Done st1)
          obtain X where
            X: "attempts (trace (final (sync_files w fs (emit (Print (Updated name)) st1)))) =
                 attempts (trace (emit (Print (Updated name)) st1)) @ X"
            and p: "prefix (map Some X) (map (dest_of w) (filter wanted fs))"
            using Cons.IH by blast
          have "attempts (trace (final (sync_files w (f # fs) st))) =
                attempts (trace st) @ (project_path w name # X)"
            using X a Done True name Some by simp
          moreover have "prefix (map Some (project_path w name # X)) (map (dest_of w) (filter wanted (f # fs)))"
            using p True name by (simp add: dest_of_def)
          ultimately show ?thesis by blast
        next
          case (Raised e st1)
          have "attempts (trace (final (sync_files w (f # fs) st))) =
                attempts (trace st) @ [project_path w name]"
            using a Raised True name Some by simp
          moreover have "prefix (map Some [project_path w name]) (map (dest_of w) (filter wanted (f # fs)))"
            using True name by (simp add: dest_of_def)
          ultimately show ?thesis by blast
        qed
      qed
    qed
  qed
qed

lemma sync_files_Done:
  "\<forall>f\<in>set fs. wanted f \<longrightarrow>
     (\<exists>name u. f ''filename'' = Some name \<and> f ''raw_url'' = Some u \<and>
        mkdir_parents w (project_path w name) = None) \<Longrightarrow>
   \<exists>st'. sync_files w fs st = Done st'"
proof (induction fs arbitrary: st)
  case Nil
  show ?case by simp
next
  case (Cons f fs)
  have rest: "\<And>s. \<exists>st'. sync_files w fs s = Done st'"
    using Cons by simp
  show ?case
  proof (cases "wanted f")
    case False
    then show ?thesis using rest by simp
  next
    case True
    then obtain name u where n: "f ''filename'' = Some name" and u: "f ''raw_url'' = Some u"
      and m: "mkdir_parents w (project_path w name) = None"
      using Cons.prems by auto
    obtain st1 where "safe_download w u (project_path w name) st = Done st1"
      using safe_download_Done [OF m] by blast
    then show ?thesis using True n u rest by simp
  qed
qed


subsection \<open>The publisher\<close>

lemma run_cmds_fields:
  "tree (final (run_cmds w cs st)) = tree st"
  "commit_file (final (run_cmds w cs st)) = commit_file st"
  by (induction cs arbitrary: st) (simp_all split: sum.splits)

lemma run_cmds_trace:
  "\<exists>k. trace (final (run_cmds w cs st)) = trace st @ map Run (take k cs)"
proof (induction cs arbitrary: st)
  case Nil
  show ?case by simp
next
  case (Cons c cs)
  show ?case
  proof (cases "subprocess_run w c")
    case (Inl e)
    have "trace (final (run_cmds w (c # cs) st)) = trace st @ map Run (take 1 (c # cs))"
      using Inl by simp
    then show ?thesis by blast
  next
    case (Inr rc)
    obtain k where "trace (final (run_cmds w cs (emit (Run c) st))) = trace (emit (Run c) st) @ map Run (take k cs)"
      using Cons.IH by blast
    then have "trace (final (run_cmds w (c # cs) st)) = trace st @ map Run (take (Suc k) (c # cs))"
      using Inr by simp
    then show ?thesis by blast
  qed
qed

lemma run_cmds_all:
  "\<forall>cmd\<in>set cs. \<exists>rc. subprocess_run w cmd = Inr rc \<Longrightarrow>
   run_cmds w cs st = Done (st\<lparr>trace := trace st @ map Run cs\<rparr>)"
  by (induction cs arbitrary: st) (auto simp: emit_def)

lemma observe_runs [simp]:
  "attempts (map Run cs) = []"
  "requests (map Run cs) = []"
  "lines (map Run cs) = []"
  "writes (map Run cs) = []"
  "fetches (map Run cs) = []"
  "sleeps (map Run cs) = []"
  "errors (map Run cs) = []"
  "runs (map Run cs) = cs"
  by (induction cs) simp_all

lemma git_push_auto_fields:
  "tree (git_push_auto cfg w st) = tree st"
  "commit_file (git_push_auto cfg w st) = commit_file st"
  using run_cmds_fields [of w "push_cmds cfg (push_message w)" st]
  by (auto simp add: git_push_auto_def Let_def split: outcome.splits)

lemma git_push_auto_trace:
  "\<exists>k l. trace (git_push_auto cfg w st) = trace st @ map Run (take k (push_cmds cfg (push_message w))) @ [Print l]
     \<and> (l = AutoPushed (push_message w) \<or> (\<exists>e. l = PushFailed e))"
proof -
  obtain k where k: "trace (final (run_cmds w (push_cmds cfg (push_message w)) st)) =
      trace st @ map Run (take k (push_cmds cfg (push_message w)))"
    using run_cmds_trace by blast
  show ?thesis
  proof (cases "run_cmds w (push_cmds cfg (push_message w)) st")
    case (Done st')
    then have "trace (git_push_auto cfg w st) =
        trace st @ map Run (take k (push_cmds cfg (push_message w))) @ [Print (AutoPushed (push_message w))]"
      using k by (simp add: git_push_auto_def Let_def)
    then show ?thesis by blast
  next
    case (Raised e st')
    then have "trace (git_push_auto cfg w st) =
        trace st @ map Run (take k (push_cmds cfg (push_message w))) @ [Print (PushFailed e)]"
      using k by (simp add: git_push_auto_def Let_def)
    then show ?thesis by blast
  qed
qed

lemma git_push_auto_quiet:
  "attempts (trace (git_push_auto cfg w st)) = attempts (trace st)"
  "requests (trace (git_push_auto cfg w st)) = requests (trace st)"
  "writes (trace (git_push_auto cfg w st)) = writes (trace st)"
  "fetches (trace (git_push_auto cfg w st)) = fetches (trace st)"
  "sleeps (trace (git_push_auto cfg w st)) = sleeps (trace st)"
  "errors (trace (git_push_auto cfg w st)) = errors (trace st)"
  using git_push_auto_trace [of cfg w st] by auto

lemma git_push_auto_lines_mono:
  "set (lines (trace st)) \<subseteq> set (lines (trace (git_push_auto cfg w st)))"
  using git_push_auto_trace [of cfg w st] by auto

subsection \<open>The timestamp\<close>

lemma digit_is_digit: "digit n \<in> set ''0123456789''"
proof -
  have "n mod 10 < length ''0123456789''" by simp
  then show ?thesis
    unfolding digit_def by (rule nth_mem)
qed

lemma strftime_format:
  "length (strftime t) = 19 \<and>
   strftime t ! 4 = CHR ''-'' \<and> strftime t ! 7 = CHR ''-'' \<and> strftime t ! 10 = CHR '' '' \<and>
   strftime t ! 13 = CHR '':'' \<and> strftime t ! 16 = CHR '':'' \<and>
   (\<forall>i\<in>{0, 1, 2, 3, 5, 6, 8, 9, 11, 12, 14, 15, 17, 18}. strftime t ! i \<in> set ''0123456789'')"
  using digit_is_digit by (simp add: strftime_def pad2_def pad4_def)

subsection \<open>One turn of the loop\<close>

lemma cycle_body_cases [case_names fetch_failed unchanged unchanged_none sync_raised sync_none synced]:
  obtains
    e where "urlopen_json w (commit_url cfg) (headers cfg) = Inl e"
      and "cycle_body cfg w st = Raised e (emit (Urlopen (commit_url cfg) (headers cfg)) st)"
  | c s where "urlopen_json w (commit_url cfg) (headers cfg) = Inr c"
      and "sha c = Some s" and "persisted st = Some s"
      and "cycle_body cfg w st = Done (emit (Print (NoNewCommits (take 8 s))) (emit (Urlopen (commit_url cfg) (headers cfg)) st))"
  | c where "urlopen_json w (commit_url cfg) (headers cfg) = Inr c"
      and "sha c = None" and "commit_file st = None"
      and "cycle_body cfg w st = Raised TypeError (emit (Urlopen (commit_url cfg) (headers cfg)) st)"
  | c e st1 where "urlopen_json w (commit_url cfg) (headers cfg) = Inr c"
      and "sha c \<noteq> persisted st"
      and "sync_files w (changed_files c) (emit (Urlopen (commit_url cfg) (headers cfg)) st) = Raised e st1"
      and "cycle_body cfg w st = Raised e st1"
  | c st1 where "urlopen_json w (commit_url cfg) (headers cfg) = Inr c"
      and "sha c \<noteq> persisted st" and "sha c = None"
      and "sync_files w (changed_files c) (emit (Urlopen (commit_url cfg) (headers cfg)) st) = Done st1"
      and "cycle_body cfg w st = Raised TypeError st1"
  | c s st1 where "urlopen_json w (commit_url cfg) (headers cfg) = Inr c"
      and "sha c \<noteq> persisted st" and "sha c = Some s"
      and "sync_files w (changed_files c) (emit (Urlopen (commit_url cfg) (headers cfg)) st) = Done st1"
      and "cycle_body cfg w st =
             Done (if AUTO_PUSH cfg
                   then git_push_auto cfg w (emit (Print SyncComplete) (emit (WriteText s) (st1\<lparr>commit_file := Some s\<rparr>)))
                   else emit (Print SyncComplete) (emit (WriteText s) (st1\<lparr>commit_file := Some s\<rparr>)))"
proof (cases "urlopen_json w (commit_url cfg) (headers cfg)")
  case (Inl e)
  then have "cycle_body cfg w st = Raised e (emit (Urlopen (commit_url cfg) (headers cfg)) st)"
    by (simp add: cycle_body_def fetch_commit_def)
  then show ?thesis using Inl that(1) by blast
next
  case (Inr c)
  show ?thesis
  proof (cases "sha c = persisted st")
    case True
    show ?thesis
    proof (cases "sha c")
      case None
      have "persisted st = None" using True None by simp
      then have p: "commit_file st = None" by (simp add: persisted_def)
      have "cycle_body cfg w st = Raised TypeError (emit (Urlopen (commit_url cfg) (headers cfg)) st)"
        by (simp add: cycle_body_def fetch_commit_def persisted_def Inr None p)
      then show ?thesis using Inr None p that(3) by blast
    next
      case (Some s)
      have p: "persisted st = Some s" using True Some by simp
      have "cycle_body cfg w st = Done (emit (Print (NoNewCommits (take 8 s))) (emit (Urlopen (commit_url cfg) (headers cfg)) st))"
        by (simp add: cycle_body_def fetch_commit_def Inr Some p)
      then show ?thesis using Inr Some p that(2) by blast
    qed
  next
    case False
    have body: "cycle_body cfg w st =
        (case sync_files w (changed_files c) (emit (Urlopen (commit_url cfg) (headers cfg)) st) of
           Raised e st1 \<Rightarrow> Raised e st1
         | Done st1 \<Rightarrow>
            (case sha c of
               None \<Rightarrow> Raised TypeError st1
             | Some s \<Rightarrow>
                Done (if AUTO_PUSH cfg
                      then git_push_auto cfg w (emit (Print SyncComplete) (emit (WriteText s) (st1\<lparr>commit_file := Some s\<rparr>)))
                      else emit (Print SyncComplete) (emit (WriteText s) (st1\<lparr>commit_file := Some s\<rparr>)))))"
      by (simp add: cycle_body_def fetch_commit_def Let_def Inr False split: outcome.splits option.splits)
    show ?thesis
    proof (cases "sync_files w (changed_files c) (emit (Urlopen (commit_url cfg) (headers cfg)) st)")
      case (Raised e st1)
      then have "cycle_body cfg w st = Raised e st1"
        using body by simp
      then show ?thesis using Inr False Raised that(4) by blast
    next
      case (Done st1)
      show ?thesis
      proof (cases "sha c")
        case None
        then have "cycle_body cfg w st = Raised TypeError st1"
          using body Done by simp
        then show ?thesis using Inr False Done None that(5) by blast
      next
        case (Some s)
        then have "cycle_body cfg w st =
             Done (if AUTO_PUSH cfg
                   then git_push_auto cfg w (emit (Print SyncComplete) (emit (WriteText s) (st1\<lparr>commit_file := Some s\<rparr>)))
                   else emit (Print SyncComplete) (emit (WriteText s) (st1\<lparr>commit_file := Some s\<rparr>)))"
          using body Done by simp
        then show ?thesis using Inr False Done Some that(6) by blast
      qed
    qed
  qed
qed

lemma cycle_body_fetches:
  "fetches (trace (final (cycle_body cfg w st))) = fetches (trace st) @ [commit_url cfg]"
proof (cases rule: cycle_body_cases [of w cfg st])
  case (sync_raised c e st1)
  then show ?thesis
    using sync_files_fetches [of w "changed_files c" "emit (Urlopen (commit_url cfg) (headers cfg)) st"]
    by simp
next
  case (sync_none c st1)
  then show ?thesis
    using sync_files_fetches [of w "changed_files c" "emit (Urlopen (commit_url cfg) (headers cfg)) st"]
    by simp
next
  case (synced c s st1)
  then show ?thesis
    using sync_files_fetches [of w "changed_files c" "emit (Urlopen (commit_url cfg) (headers cfg)) st"]
    by (simp add: git_push_auto_quiet)
qed simp_all

lemma cycle_body_sleeps:
  "sleeps (trace (final (cycle_body cfg w st))) = sleeps (trace st)"
proof (cases rule: cycle_body_cases [of w cfg st])
  case (sync_raised c e st1)
  then show ?thesis
    using sync_files_sleeps [of w "changed_files c" "emit (Urlopen (commit_url cfg) (headers cfg)) st"]
    by simp
next
  case (sync_none c st1)
  then show ?thesis
    using sync_files_sleeps [of w "changed_files c" "emit (Urlopen (commit_url cfg) (headers cfg)) st"]
    by simp
next
  case (synced c s st1)
  then show ?thesis
    using sync_files_sleeps [of w "changed_files c" "emit (Urlopen (commit_url cfg) (headers cfg)) st"]
    by (simp add: git_push_auto_quiet)
qed simp_all

lemma cycle_fetches:
  "fetches (trace (cycle cfg w st)) = fetches (trace st) @ [commit_url cfg]"
  using cycle_body_fetches [of cfg w st]
  by (cases "cycle_body cfg w st") (simp_all add: cycle_def)

lemma cycle_sleeps:
  "sleeps (trace (cycle cfg w st)) = sleeps (trace st) @ [INTERVAL cfg]"
  using cycle_body_sleeps [of cfg w st]
  by (cases "cycle_body cfg w st") (simp_all add: cycle_def)

lemma cycle_last:
  "last (trace (cycle cfg w st)) = Sleep (INTERVAL cfg)"
  by (cases "cycle_body cfg w st") (simp_all add: cycle_def)

lemma daemon_from_fetches:
  "fetches (trace (run_autosync_daemon_from cfg ws st)) =
     fetches (trace st) @ replicate (length ws) (commit_url cfg)"
  by (induction ws arbitrary: st) (simp_all add: cycle_fetches replicate_append_same)

lemma daemon_from_sleeps:
  "sleeps (trace (run_autosync_daemon_from cfg ws st)) =
     sleeps (trace st) @ replicate (length ws) (INTERVAL cfg)"
  by (induction ws arbitrary: st) (simp_all add: cycle_sleeps replicate_append_same)

lemma cycle_body_changed:
  assumes "urlopen_json w (commit_url cfg) (headers cfg) = Inr c"
    and "sha c \<noteq> persisted st"
  shows "cycle_body cfg w st =
        (case sync_files w (changed_files c) (emit (Urlopen (commit_url cfg) (headers cfg)) st) of
           Raised e st1 \<Rightarrow> Raised e st1
         | Done st1 \<Rightarrow>
            (case sha c of
               None \<Rightarrow> Raised TypeError st1
             | Some s \<Rightarrow>
                Done (if AUTO_PUSH cfg
                      then git_push_auto cfg w (emit (Print SyncComplete) (emit (WriteText s) (st1\<lparr>commit_file := Some s\<rparr>)))
                      else emit (Print SyncComplete) (emit (WriteText s) (st1\<lparr>commit_file := Some s\<rparr>)))))"
  by (simp add: cycle_body_def fetch_commit_def Let_def assms split: outcome.splits option.splits)

lemma cycle_changed_observations:
  assumes "urlopen_json w (commit_url cfg) (headers cfg) = Inr c"
    and "sha c \<noteq> persisted st"
  shows "attempts (trace (cycle cfg w st)) =
           attempts (trace (final (sync_files w (changed_files c) (emit (Urlopen (commit_url cfg) (headers cfg)) st))))"
    and "requests (trace (cycle cfg w st)) =
           requests (trace (final (sync_files w (changed_files c) (emit (Urlopen (commit_url cfg) (headers cfg)) st))))"
  by (simp_all add: cycle_def cycle_body_changed [OF assms] git_push_auto_quiet
      split: outcome.splits option.splits)


lemma cycle_synced:
  assumes f: "urlopen_json w (commit_url cfg) (headers cfg) = Inr c"
    and s: "sha c = Some s"
    and n: "persisted st \<noteq> Some s"
    and d: "sync_files w (changed_files c) (emit (Urlopen (commit_url cfg) (headers cfg)) st) = Done st1"
  shows "commit_file (cycle cfg w st) = Some s"
    and "writes (trace (cycle cfg w st)) = writes (trace st) @ [s]"
    and "errors (trace (cycle cfg w st)) = errors (trace st)"
    and "attempts (trace (cycle cfg w st)) = attempts (trace st1)"
    and "set (lines (trace st1)) \<subseteq> set (lines (trace (cycle cfg w st)))"
    and "last (trace (cycle cfg w st)) = Sleep (INTERVAL cfg)"
proof -
  let ?st0 = "emit (Urlopen (commit_url cfg) (headers cfg)) st"
  let ?st2 = "emit (Print SyncComplete) (emit (WriteText s) (st1\<lparr>commit_file := Some s\<rparr>))"
  have ne: "sha c \<noteq> persisted st"
    using s n by metis
  have body: "cycle_body cfg w st = Done (if AUTO_PUSH cfg then git_push_auto cfg w ?st2 else ?st2)"
  proof (cases rule: cycle_body_cases [of w cfg st])
    case (fetch_failed e)
    then show ?thesis using f by simp
  next
    case (unchanged c' s')
    then have "c' = c" using f by simp
    then have "persisted st = Some s"
      using unchanged(2) unchanged(3) s by (metis option.inject)
    then show ?thesis using n by blast
  next
    case (unchanged_none c')
    then have "c' = c" using f by simp
    then show ?thesis using unchanged_none(2) s by simp
  next
    case (sync_raised c' e st1')
    then have "c' = c" using f by simp
    then show ?thesis using sync_raised(3) d by simp
  next
    case (sync_none c' st1')
    then have "c' = c" using f by simp
    then show ?thesis using sync_none(3) s by simp
  next
    case (synced c' s' st1')
    then have "c' = c" using f by simp
    then have "s' = s" "st1' = st1" using synced(3) synced(4) s d by simp_all
    then show ?thesis using synced(5) by simp
  qed
  have w1: "writes (trace st1) = writes (trace st)"
    using sync_files_writes [of w "changed_files c" ?st0] d by simp
  have e1: "errors (trace st1) = errors (trace st)"
    using sync_files_errors [of w "changed_files c" ?st0] d by simp
  show "commit_file (cycle cfg w st) = Some s"
    by (simp add: cycle_def body git_push_auto_fields)
  show "writes (trace (cycle cfg w st)) = writes (trace st) @ [s]"
    by (simp add: cycle_def body git_push_auto_quiet w1)
  show "errors (trace (cycle cfg w st)) = errors (trace st)"
    by (simp add: cycle_def body git_push_auto_quiet e1)
  show "attempts (trace (cycle cfg w st)) = attempts (trace st1)"
    by (simp add: cycle_def body git_push_auto_quiet)
  show "set (lines (trace st1)) \<subseteq> set (lines (trace (cycle cfg w st)))"
    using git_push_auto_lines_mono [of ?st2 cfg w]
    by (auto simp add: cycle_def body)
  show "last (trace (cycle cfg w st)) = Sleep (INTERVAL cfg)"
    by (rule cycle_last)
qed

lemma sync_files_requests:
  "\<exists>X Y. attempts (trace (final (sync_files w fs st))) = attempts (trace st) @ X \<and>
         requests (trace (final (sync_files w fs st))) = requests (trace st) @ Y \<and>
         set (map snd Y) \<subseteq> set X"
proof (rule sync_files_rel [where R = "\<lambda>a b. \<exists>X Y. attempts (trace b) = attempts (trace a) @ X \<and>
         requests (trace b) = requests (trace a) @ Y \<and> set (map snd Y) \<subseteq> set X"])
  show "\<exists>X Y. attempts (trace s) = attempts (trace s) @ X \<and>
         requests (trace s) = requests (trace s) @ Y \<and> set (map snd Y) \<subseteq> set X" for s
    by simp
next
  fix a b c
  assume "\<exists>X Y. attempts (trace b) = attempts (trace a) @ X \<and>
         requests (trace b) = requests (trace a) @ Y \<and> set (map snd Y) \<subseteq> set X"
    and "\<exists>X Y. attempts (trace c) = attempts (trace b) @ X \<and>
         requests (trace c) = requests (trace b) @ Y \<and> set (map snd Y) \<subseteq> set X"
  then obtain X Y X' Y' where
    1: "attempts (trace b) = attempts (trace a) @ X" "requests (trace b) = requests (trace a) @ Y"
       "set (map snd Y) \<subseteq> set X"
    and 2: "attempts (trace c) = attempts (trace b) @ X'" "requests (trace c) = requests (trace b) @ Y'"
       "set (map snd Y') \<subseteq> set X'"
    by blast
  have "attempts (trace c) = attempts (trace a) @ (X @ X')"
    "requests (trace c) = requests (trace a) @ (Y @ Y')"
    "set (map snd (Y @ Y')) \<subseteq> set (X @ X')"
    using 1 2 by auto
  then show "\<exists>X Y. attempts (trace c) = attempts (trace a) @ X \<and>
         requests (trace c) = requests (trace a) @ Y \<and> set (map snd Y) \<subseteq> set X"
    by blast
next
  fix u d s
  obtain Y where "requests (trace (final (safe_download w u d s))) = requests (trace s) @ Y"
    "set (map snd Y) \<subseteq> {d}"
    using safe_download_requests by blast
  then have "attempts (trace (final (safe_download w u d s))) = attempts (trace s) @ [d] \<and>
         requests (trace (final (safe_download w u d s))) = requests (trace s) @ Y \<and>
         set (map snd Y) \<subseteq> set [d]"
    using safe_download_attempts [of w u d s] by simp
  then show "\<exists>X Y. attempts (trace (final (safe_download w u d s))) = attempts (trace s) @ X \<and>
         requests (trace (final (safe_download w u d s))) = requests (trace s) @ Y \<and>
         set (map snd Y) \<subseteq> set X"
    by blast
next
  show "\<exists>X Y. attempts (trace (emit (Print (Updated n)) s)) = attempts (trace s) @ X \<and>
         requests (trace (emit (Print (Updated n)) s)) = requests (trace s) @ Y \<and>
         set (map snd Y) \<subseteq> set X" for n s
    by simp
qed


lemma cycle_runs_disabled:
  assumes "\<not> AUTO_PUSH cfg"
  shows "runs (trace (cycle cfg w st)) = runs (trace st)"
proof (cases rule: cycle_body_cases [of w cfg st])
  case (sync_raised c e st1)
  then show ?thesis
    using sync_files_runs [of w "changed_files c" "emit (Urlopen (commit_url cfg) (headers cfg)) st"]
    by (simp add: cycle_def)
next
  case (sync_none c st1)
  then show ?thesis
    using sync_files_runs [of w "changed_files c" "emit (Urlopen (commit_url cfg) (headers cfg)) st"]
    by (simp add: cycle_def)
next
  case (synced c s st1)
  then show ?thesis
    using assms sync_files_runs [of w "changed_files c" "emit (Urlopen (commit_url cfg) (headers cfg)) st"]
    by (simp add: cycle_def)
qed (simp_all add: cycle_def)

lemma cycle_runs_enabled:
  assumes "AUTO_PUSH cfg"
    and f: "urlopen_json w (commit_url cfg) (headers cfg) = Inr c"
    and s: "sha c = Some s"
    and n: "persisted st \<noteq> Some s"
    and wf: "\<forall>f\<in>set (changed_files c). wanted f \<longrightarrow>
              (\<exists>name u. f ''filename'' = Some name \<and> f ''raw_url'' = Some u \<and>
                 mkdir_parents w (project_path w name) = None)"
    and ok: "\<forall>cmd\<in>set (push_cmds cfg (push_message w)). \<exists>rc. subprocess_run w cmd = Inr rc"
  shows "runs (trace (cycle cfg w st)) = runs (trace st) @ push_cmds cfg (push_message w)"
proof -
  let ?st0 = "emit (Urlopen (commit_url cfg) (headers cfg)) st"
  obtain st1 where d: "sync_files w (changed_files c) ?st0 = Done st1"
    using sync_files_Done [OF wf] by blast
  have ne: "sha c \<noteq> persisted st"
    using s n by metis
  have r1: "runs (trace st1) = runs (trace st)"
    using sync_files_runs [of w "changed_files c" ?st0] d by simp
  have "cycle cfg w st = emit (Sleep (INTERVAL cfg))
      (git_push_auto cfg w (emit (Print SyncComplete) (emit (WriteText s) (st1\<lparr>commit_file := Some s\<rparr>))))"
    using assms(1) by (simp add: cycle_def cycle_body_changed [OF f ne] d s)
  then show ?thesis
    using r1 by (simp add: git_push_auto_def Let_def run_cmds_all [OF ok])
qed

subsection \<open>What the file loop requests and stores\<close>

lemma processable_iff:
  "processable w f \<longleftrightarrow>
     (\<exists>name u. f ''filename'' = Some name \<and> f ''raw_url'' = Some u \<and>
        mkdir_parents w (project_path w name) = None)"
  by (auto simp: processable_def split: option.splits)

lemma safe_download_requests_eq:
  "requests (trace (final (safe_download w u d st))) =
     requests (trace st) @
       (case mkdir_parents w d of
          Some e \<Rightarrow> []
        | None \<Rightarrow> (case rewrite_url u of Inl e \<Rightarrow> [] | Inr url \<Rightarrow> [(url, d)]))"
  by (simp add: safe_download_def Let_def split: option.splits sum.splits retrieved.splits)

lemma safe_download_tree_eq:
  "tree (final (safe_download w u d st)) =
     (case mkdir_parents w d of
        Some e \<Rightarrow> tree st
      | None \<Rightarrow>
         (case rewrite_url u of
            Inl e \<Rightarrow> tree st
          | Inr url \<Rightarrow>
             (case urlretrieve w url d of
                Saved content \<Rightarrow> (tree st)(d \<mapsto> content)
              | Failed e partial \<Rightarrow>
                 (case partial of None \<Rightarrow> tree st | Some c \<Rightarrow> (tree st)(d \<mapsto> c)))))"
  by (simp add: safe_download_def Let_def split: option.splits sum.splits retrieved.splits)

lemma sync_files_step_processable:
  assumes "wanted f" and "processable w f"
  shows "\<exists>st1. sync_files w (f # fs) st = sync_files w fs st1 \<and>
           requests (trace st1) = requests (trace st) @ List.map_filter (request_of w) [f] \<and>
           tree st1 = tree st ++ map_of (List.map_filter (stored_by w) [f]) \<and>
           (\<exists>d. dest_of w f = Some d \<and> attempts (trace st1) = attempts (trace st) @ [d])"
proof -
  obtain name u where n: "f ''filename'' = Some name" and u: "f ''raw_url'' = Some u"
    and m: "mkdir_parents w (project_path w name) = None"
    using assms(2) by (auto simp: processable_iff)
  let ?d = "project_path w name"
  obtain st' where d: "safe_download w u ?d st = Done st'"
    using safe_download_Done [OF m] by blast
  let ?st1 = "emit (Print (Updated name)) st'"
  have 1: "sync_files w (f # fs) st = sync_files w fs ?st1"
    using assms(1) n u d by simp
  have 2: "requests (trace ?st1) = requests (trace st) @ List.map_filter (request_of w) [f]"
    using safe_download_requests_eq [of w u ?d st] d m n u
    by (simp add: request_of_def split: sum.splits)
  have 3: "tree ?st1 = tree st ++ map_of (List.map_filter (stored_by w) [f])"
    using safe_download_tree_eq [of w u ?d st] d m n u
    by (simp add: stored_by_def request_of_def split: sum.splits retrieved.splits option.splits)
  have 4: "dest_of w f = Some ?d \<and> attempts (trace ?st1) = attempts (trace st) @ [?d]"
    using safe_download_attempts [of w u ?d st] d n by (simp add: dest_of_def)
  show ?thesis using 1 2 3 4 by blast
qed

lemma sync_files_step_blocked:
  assumes "wanted f" and "\<not> processable w f"
  shows "\<exists>e st1. sync_files w (f # fs) st = Raised e st1 \<and>
           requests (trace st1) = requests (trace st) \<and> tree st1 = tree st"
proof (cases "f ''filename''")
  case None
  then show ?thesis using assms(1) by simp
next
  case (Some name)
  note n = Some
  show ?thesis
  proof (cases "f ''raw_url''")
    case None
    then show ?thesis using assms(1) n by simp
  next
    case (Some u)
    then obtain e where m: "mkdir_parents w (project_path w name) = Some e"
      using assms(2) n by (auto simp: processable_def)
    then have "safe_download w u (project_path w name) st = Raised e (emit (Mkdir (project_path w name)) st)"
      by (simp add: safe_download_def Let_def)
    then show ?thesis using assms(1) n Some by simp
  qed
qed

lemma sync_files_requests_eq:
  "requests (trace (final (sync_files w fs st))) =
     requests (trace st) @
       List.map_filter (request_of w) (takeWhile (processable w) (filter wanted fs))"
proof (induction fs arbitrary: st)
  case Nil
  show ?case by simp
next
  case (Cons f fs)
  show ?case
  proof (cases "wanted f")
    case False
    then show ?thesis using Cons.IH by simp
  next
    case True
    show ?thesis
    proof (cases "processable w f")
      case True
      obtain st1 where 1: "sync_files w (f # fs) st = sync_files w fs st1"
        and 2: "requests (trace st1) = requests (trace st) @ List.map_filter (request_of w) [f]"
        using sync_files_step_processable [OF \<open>wanted f\<close> True] by blast
      show ?thesis
        using Cons.IH [of st1] 1 2 \<open>wanted f\<close> True
        by (simp split: option.splits)
    next
      case False
      obtain e st1 where "sync_files w (f # fs) st = Raised e st1"
        and "requests (trace st1) = requests (trace st)"
        using sync_files_step_blocked [OF \<open>wanted f\<close> False] by blast
      then show ?thesis using \<open>wanted f\<close> False by simp
    qed
  qed
qed

lemma map_of_snoc: "map_of (xs @ [x]) = map_of [x] ++ map_of xs"
  by (simp add: map_of_append)

lemma sync_files_tree_eq:
  "tree (final (sync_files w fs st)) =
     tree st ++
       map_of (rev (List.map_filter (stored_by w) (takeWhile (processable w) (filter wanted fs))))"
proof (induction fs arbitrary: st)
  case Nil
  show ?case by simp
next
  case (Cons f fs)
  show ?case
  proof (cases "wanted f")
    case False
    then show ?thesis using Cons.IH by simp
  next
    case True
    show ?thesis
    proof (cases "processable w f")
      case True
      obtain st1 where 1: "sync_files w (f # fs) st = sync_files w fs st1"
        and 2: "tree st1 = tree st ++ map_of (List.map_filter (stored_by w) [f])"
        using sync_files_step_processable [OF \<open>wanted f\<close> True] by blast
      let ?rest = "List.map_filter (stored_by w) (takeWhile (processable w) (filter wanted fs))"
      have "tree (final (sync_files w (f # fs) st)) =
          (tree st ++ map_of (List.map_filter (stored_by w) [f])) ++ map_of (rev ?rest)"
        using Cons.IH [of st1] 1 2 by simp
      also have "\<dots> = tree st ++ map_of (rev ?rest @ List.map_filter (stored_by w) [f])"
        by (simp add: map_of_append)
      also have "rev ?rest @ List.map_filter (stored_by w) [f] =
          rev (List.map_filter (stored_by w) (takeWhile (processable w) (filter wanted (f # fs))))"
        using \<open>wanted f\<close> True by (simp split: option.splits)
      finally show ?thesis .
    next
      case False
      obtain e st1 where "sync_files w (f # fs) st = Raised e st1"
        and "tree st1 = tree st"
        using sync_files_step_blocked [OF \<open>wanted f\<close> False] by blast
      then show ?thesis using \<open>wanted f\<close> False by simp
    qed
  qed
qed

lemma sync_files_attempts_lower:
  "\<exists>X. attempts (trace (final (sync_files w fs st))) = attempts (trace st) @ X \<and>
       prefix (map (dest_of w) (takeWhile (processable w) (filter wanted fs))) (map Some X)"
proof (induction fs arbitrary: st)
  case Nil
  show ?case by simp
next
  case (Cons f fs)
  show ?case
  proof (cases "wanted f")
    case False
    then show ?thesis using Cons.IH by simp
  next
    case True
    show ?thesis
    proof (cases "processable w f")
      case True
      obtain st1 d where 1: "sync_files w (f # fs) st = sync_files w fs st1"
        and 2: "dest_of w f = Some d" "attempts (trace st1) = attempts (trace st) @ [d]"
        using sync_files_step_processable [OF \<open>wanted f\<close> True] by blast
      obtain X where X: "attempts (trace (final (sync_files w fs st1))) = attempts (trace st1) @ X"
        and p: "prefix (map (dest_of w) (takeWhile (processable w) (filter wanted fs))) (map Some X)"
        using Cons.IH by blast
      have "attempts (trace (final (sync_files w (f # fs) st))) = attempts (trace st) @ (d # X)"
        using 1 2 X by simp
      moreover have "prefix (map (dest_of w) (takeWhile (processable w) (filter wanted (f # fs))))
          (map Some (d # X))"
        using p 2 \<open>wanted f\<close> True by simp
      ultimately show ?thesis by blast
    next
      case False
      obtain X where "attempts (trace (final (sync_files w (f # fs) st))) = attempts (trace st) @ X"
        using sync_files_attempts_prefix [of w "f # fs" st] by blast
      then show ?thesis using \<open>wanted f\<close> False by auto
    qed
  qed
qed

lemma takeWhile_all_processable:
  "\<forall>f\<in>set fs. wanted f \<longrightarrow>
     (\<exists>name u. f ''filename'' = Some name \<and> f ''raw_url'' = Some u \<and>
        mkdir_parents w (project_path w name) = None) \<Longrightarrow>
   takeWhile (processable w) (filter wanted fs) = filter wanted fs"
  by (simp add: processable_iff)



lemma cycle_changed_tree:
  assumes "urlopen_json w (commit_url cfg) (headers cfg) = Inr c"
    and "sha c \<noteq> persisted st"
  shows "tree (cycle cfg w st) =
           tree (final (sync_files w (changed_files c) (emit (Urlopen (commit_url cfg) (headers cfg)) st)))"
  by (simp add: cycle_def cycle_body_changed [OF assms] git_push_auto_fields
      split: outcome.splits option.splits)

lemma cycle_changed_requests:
  assumes "urlopen_json w (commit_url cfg) (headers cfg) = Inr c"
    and "sha c \<noteq> persisted st"
  shows "requests (trace (cycle cfg w st)) =
           requests (trace st) @
             List.map_filter (request_of w) (takeWhile (processable w) (filter wanted (changed_files c)))"
    and "tree (cycle cfg w st) =
           tree st ++
             map_of (rev (List.map_filter (stored_by w)
               (takeWhile (processable w) (filter wanted (changed_files c)))))"
  using cycle_changed_observations(2) [OF assms] cycle_changed_tree [OF assms]
    sync_files_requests_eq [of w "changed_files c" "emit (Urlopen (commit_url cfg) (headers cfg)) st"]
    sync_files_tree_eq [of w "changed_files c" "emit (Urlopen (commit_url cfg) (headers cfg)) st"]
  by simp_all


lemma cycle_noop:
  assumes "urlopen_json w (commit_url cfg) (headers cfg) = Inr c" and "sha c = Some s"
    and "persisted st = Some s"
  shows "cycle cfg w st =
      emit (Sleep (INTERVAL cfg)) (emit (Print (NoNewCommits (take 8 s)))
        (emit (Urlopen (commit_url cfg) (headers cfg)) st))"
  by (simp add: cycle_def cycle_body_def fetch_commit_def assms)

subsection \<open>The example inputs, evaluated\<close>

lemmas example_defs =
  flaky_world_def offline_world_def failing_git_world_def no_git_world_def example_world_def
  example_config_def example_commit_def example_file_def other_file_def removed_file_def
  malformed_file_def timed_out_def fresh_def synced_def
  blocked_first_world_def blocked_second_world_def malformed_world_def malformed_commit_def

lemma flaky_cycle:
  "cycle example_config flaky_world fresh =
    \<lparr>tree = [''/srv/b.txt'' \<mapsto> ''new''], commit_file = Some ''abc'',
     trace =
      [Urlopen ''https://api.github.com/repos/o/r/commits/main'' [], Mkdir ''/srv/a.txt'',
       Print (Fetching ''https://raw.githubusercontent.com/o/r/abc/a.txt''),
       Urlretrieve ''https://raw.githubusercontent.com/o/r/abc/a.txt'' ''/srv/a.txt'',
       Print (DownloadFailed ''https://github.com/o/r/raw/abc/a.txt'' (OSError ''timed out'')),
       Print (Updated ''a.txt''), Mkdir ''/srv/b.txt'',
       Print (Fetching ''https://raw.githubusercontent.com/o/r/abc/b.txt''),
       Urlretrieve ''https://raw.githubusercontent.com/o/r/abc/b.txt'' ''/srv/b.txt'',
       Print (Updated ''b.txt''), WriteText ''abc'', Print SyncComplete, Sleep 300]\<rparr>"
  by (simp add: cycle_def cycle_body_def fetch_commit_def example_defs
      changed_files_def wanted_def safe_download_def rewrite_url_def persisted_def
      commit_url_def headers_def emit_def Let_def)

lemma fresh_trace: "trace fresh = []"
  by (simp add: fresh_def)

lemma flaky_fetch:
  "urlopen_json flaky_world (commit_url example_config) (headers example_config) = Inr example_commit"
  by (simp add: flaky_world_def example_world_def)

lemma example_files_well_formed:
  "\<forall>f\<in>set (changed_files example_commit). wanted f \<longrightarrow>
     (\<exists>name u. f ''filename'' = Some name \<and> f ''raw_url'' = Some u \<and>
        mkdir_parents flaky_world (project_path flaky_world name) = None)"
  by (simp add: example_defs changed_files_def wanted_def)

lemma failing_git_push:
  "trace (git_push_auto example_config failing_git_world fresh) =
     [Run [''git'', ''config'', ''--global'', ''user.email'', ''auto@prosperitytoolbox.dev''],
      Run [''git'', ''config'', ''--global'', ''user.name'', ''AutoSync Daemon''],
      Run [''git'', ''pull'', ''https://@github.com/o/r.git'', ''main'', ''--rebase''],
      Run [''git'', ''add'', ''.''],
      Run [''git'', ''commit'', ''-m'', ''Automated patch sync: 2024-03-09 07:05:00''],
      Run [''git'', ''push'', ''https://@github.com/o/r.git'', ''main''],
      Print (AutoPushed ''Automated patch sync: 2024-03-09 07:05:00'')]"
  by (simp add: git_push_auto_def push_cmds_def push_message_def strftime_def pad2_def pad4_def
      digit_def example_defs emit_def Let_def)

lemmas run_defs =
  cycle_def cycle_body_def fetch_commit_def changed_files_def wanted_def safe_download_def
  rewrite_url_def persisted_def commit_url_def headers_def emit_def Let_def



lemma malformed_cycle:
  "cycle example_config malformed_world fresh =
    \<lparr>tree = [''/srv/a.txt'' \<mapsto> ''new''], commit_file = None,
     trace =
      [Urlopen ''https://api.github.com/repos/o/r/commits/main'' [], Mkdir ''/srv/a.txt'',
       Print (Fetching ''https://raw.githubusercontent.com/o/r/abc/a.txt''),
       Urlretrieve ''https://raw.githubusercontent.com/o/r/abc/a.txt'' ''/srv/a.txt'',
       Print (Updated ''a.txt''),
       Print (Error (KeyError ''raw_url'')), Print (Traceback (KeyError ''raw_url'')),
       Sleep 300]\<rparr>"
  by (simp add: run_defs example_defs)

lemma malformed_cycle_again:
  "requests (trace (cycle example_config malformed_world (cycle example_config malformed_world fresh))) =
     [(''https://raw.githubusercontent.com/o/r/abc/a.txt'', ''/srv/a.txt''),
      (''https://raw.githubusercontent.com/o/r/abc/a.txt'', ''/srv/a.txt'')]"
  by (simp add: malformed_cycle) (simp add: run_defs example_defs)

lemma persisted_fresh: "persisted fresh = None"
  by (simp add: fresh_def persisted_def)

lemma persisted_synced: "persisted synced = Some ''abc''"
  by (simp add: synced_def persisted_def read_text_def strip_def isspace_def)

lemma abc_reads_back: "strip (read_text ''abc'') = ''abc''"
  by (simp add: read_text_def strip_def isspace_def)

lemma example_wanted:
  "filter wanted (changed_files example_commit) = [example_file, other_file]"
  by (simp add: example_defs changed_files_def wanted_def)

lemma example_requests:
  "request_of flaky_world example_file =
     Some (''https://raw.githubusercontent.com/o/r/abc/a.txt'', ''/srv/a.txt'')"
  "request_of flaky_world other_file =
     Some (''https://raw.githubusercontent.com/o/r/abc/b.txt'', ''/srv/b.txt'')"
  "stored_by flaky_world example_file = None"
  "stored_by flaky_world other_file = Some (''/srv/b.txt'', ''new'')"
  by (simp_all add: stored_by_def request_of_def rewrite_url_def example_defs)

section \<open>The commit fetcher\<close>

text \<open>
  Claim C9, as stated, says that the configured base API endpoint overrides the host of
  the per-cycle commit-metadata request. It does not: with the endpoint set to
  \<^verbatim>\<open>http://localhost:9000\<close>, repository \<^verbatim>\<open>o/r\<close> and branch \<^verbatim>\<open>main\<close>, the one request
  of the cycle goes to \<^verbatim>\<open>https://api.github.com/repos/o/r/commits/main\<close>.
\<close>

theorem base_url_not_requested:
  "BASE_URL example_config = ''http://localhost:9000'' \<and>
   fetches (trace (cycle example_config flaky_world fresh)) =
     [''https://api.github.com/repos/o/r/commits/main''] \<and>
   \<not> prefix (BASE_URL example_config) ''https://api.github.com/repos/o/r/commits/main''"
  by (simp add: flaky_cycle) (simp add: example_config_def)

text \<open>
  Claim C9, amended: the configured base API endpoint (default
  \<^verbatim>\<open>http://127.0.0.1:8000\<close>, trailing slashes removed) is read from the environment and
  has no effect on the per-cycle commit-metadata request: for every configuration the
  commit fetcher directs its request to the fixed host \<^verbatim>\<open>https://api.github.com\<close>, at
  \<^verbatim>\<open>/repos/\<close>, the repository, \<^verbatim>\<open>/commits/\<close>, the branch. Changing the endpoint changes
  neither the URL, nor the fetch, nor anything else a cycle does.
\<close>

theorem fetch_commit_ignores_base_url:
  "commit_url cfg = ''https://api.github.com/repos/'' @ GITHUB_REPO cfg @ ''/commits/'' @ BRANCH cfg \<and>
   commit_url (cfg\<lparr>BASE_URL := b\<rparr>) = commit_url cfg \<and>
   fetch_commit (cfg\<lparr>BASE_URL := b\<rparr>) w st = fetch_commit cfg w st \<and>
   cycle (cfg\<lparr>BASE_URL := b\<rparr>) w st = cycle cfg w st \<and>
   fetches (trace (cycle cfg w st)) =
     fetches (trace st) @
       [''https://api.github.com/repos/'' @ GITHUB_REPO cfg @ ''/commits/'' @ BRANCH cfg] \<and>
   base_url_setting Map.empty = ''http://127.0.0.1:8000'' \<and>
   base_url_setting [''BASE_URL'' \<mapsto> ''http://localhost:9000/''] = ''http://localhost:9000''"
proof -
  have cu: "commit_url (cfg\<lparr>BASE_URL := b\<rparr>) = commit_url cfg"
    by (simp add: commit_url_def)
  have hd: "headers (cfg\<lparr>BASE_URL := b\<rparr>) = headers cfg"
    by (simp add: headers_def)
  have fc: "fetch_commit (cfg\<lparr>BASE_URL := b\<rparr>) w st = fetch_commit cfg w st"
    by (simp add: fetch_commit_def cu hd)
  have gp: "git_push_auto (cfg\<lparr>BASE_URL := b\<rparr>) w t = git_push_auto cfg w t" for t
    by (simp add: git_push_auto_def push_cmds_def)
  have cb: "cycle_body (cfg\<lparr>BASE_URL := b\<rparr>) w st = cycle_body cfg w st"
    by (simp add: cycle_body_def fc gp Let_def
        split: prod.splits sum.splits outcome.splits option.splits)
  have "cycle (cfg\<lparr>BASE_URL := b\<rparr>) w st = cycle cfg w st"
    by (simp add: cycle_def cb split: outcome.splits)
  moreover have "fetches (trace (cycle cfg w st)) =
     fetches (trace st) @
       [''https://api.github.com/repos/'' @ GITHUB_REPO cfg @ ''/commits/'' @ BRANCH cfg]"
    using cycle_fetches [of cfg w st] by (simp add: commit_url_def)
  moreover have "base_url_setting Map.empty = ''http://127.0.0.1:8000''"
    "base_url_setting [''BASE_URL'' \<mapsto> ''http://localhost:9000/''] = ''http://localhost:9000''"
    by (simp_all add: base_url_setting_def rstrip_slash_def)
  moreover have "commit_url cfg =
      ''https://api.github.com/repos/'' @ GITHUB_REPO cfg @ ''/commits/'' @ BRANCH cfg"
    by (simp add: commit_url_def)
  ultimately show ?thesis
    using cu fc by blast
qed

section \<open>Location rewriting in the download helper\<close>

text \<open>
  Claim C3 says that a viewer-style URL is rewritten by stripping only the viewer path
  segment, the owner, repository, branch and file path being preserved exactly. The code
  replaces every \<^verbatim>\<open>/blob/\<close> and every \<^verbatim>\<open>/raw/\<close> of the location, also those of the
  file path: for the file \<^verbatim>\<open>assets/raw/img.png\<close> on branch \<^verbatim>\<open>main\<close> of \<^verbatim>\<open>o/r\<close> it
  requests \<^verbatim>\<open>o/r/main/assets/img.png\<close>, another path, and likewise for a directory
  named \<^verbatim>\<open>blob\<close>. The path is kept when its separators arrive encoded as \<^verbatim>\<open>%2F\<close>,
  which are decoded after the replacement.
\<close>

theorem rewrite_url_strips_path_segment:
  "rewrite_url ''https://github.com/o/r/raw/main/assets/raw/img.png'' =
     Inr ''https://raw.githubusercontent.com/o/r/main/assets/img.png'' \<and>
   rewrite_url ''https://github.com/o/r/blob/main/src/blob/store.py'' =
     Inr ''https://raw.githubusercontent.com/o/r/main/src/store.py'' \<and>
   rewrite_url ''https://github.com/o/r/raw/main/assets%2Fraw%2Fimg.png'' =
     Inr ''https://raw.githubusercontent.com/o/r/main/assets/raw/img.png''"
  by (simp add: rewrite_url_def)

text \<open>
  Where the viewer segment is the only thing to replace, the rewrite is the intended
  one: for a location \<open>P\<close>\<^verbatim>\<open>github.com/\<close>\<open>A\<close>\<^verbatim>\<open>/blob/\<close>\<open>B\<close> (or with \<^verbatim>\<open>/raw/\<close>) in
  which \<^verbatim>\<open>github.com/\<close> occurs once, no viewer segment starts before the one given or
  is left after it, and there is no query, the URL requested is the direct endpoint
  with \<open>A\<close>\<^verbatim>\<open>/\<close>\<open>B\<close>, its \<^verbatim>\<open>%2F\<close> decoded.
\<close>

lemma contains_github:
  "contains ''github.com'' (P @ ''github.com/'' @ R)"
proof -
  have "prefix ''github.com'' (''github.com/'' @ R)"
    by simp
  then have "contains ''github.com'' (''github.com/'' @ R)"
    by (rule prefix_contains)
  then show ?thesis by (rule contains_append)
qed

lemma rewrite_url_rest:
  assumes "\<not> contains ''github.com/'' (P @ ''github.com'')"
    and "\<not> contains ''github.com/'' R"
  shows "rewrite_url (P @ ''github.com/'' @ R) =
    (case index (split ''?'' (replace ''/raw/'' ''/'' (replace ''/blob/'' ''/'' R))) 0 of
       Inl e \<Rightarrow> Inl e
     | Inr parts' \<Rightarrow> Inr (''https://raw.githubusercontent.com/'' @ replace ''%2F'' ''/'' parts'))"
proof -
  have "\<not> contains ''github.com/'' (P @ butlast ''github.com/'')"
    using assms(1) by simp
  then have "split ''github.com/'' (P @ ''github.com/'' @ R) = P # split ''github.com/'' R"
    by (intro split_first) simp_all
  also have "split ''github.com/'' R = [R]"
    using assms(2) by (intro split_absent) simp_all
  finally have "index (split ''github.com/'' (P @ ''github.com/'' @ R)) 1 = Inr R"
    by simp
  then show ?thesis
    using contains_github [of P R] by (simp add: rewrite_url_def)
qed

lemma rewrite_url_blob:
  assumes "\<not> contains ''github.com/'' (P @ ''github.com'')"
    and "\<not> contains ''github.com/'' (A @ ''/blob/'' @ B)"
    and "\<not> contains ''/blob/'' (A @ ''/blob'')"
    and "\<not> contains ''/blob/'' B"
    and "\<not> contains ''/raw/'' (A @ ''/'' @ B)"
    and "\<not> contains ''?'' (A @ ''/'' @ B)"
  shows "rewrite_url (P @ ''github.com/'' @ A @ ''/blob/'' @ B) =
           Inr (''https://raw.githubusercontent.com/'' @ replace ''%2F'' ''/'' (A @ ''/'' @ B))"
proof -
  have "\<not> contains ''/blob/'' (A @ butlast ''/blob/'')"
    using assms(3) by simp
  then have "replace ''/blob/'' ''/'' (A @ ''/blob/'' @ B) = A @ ''/'' @ replace ''/blob/'' ''/'' B"
    by (intro replace_first) simp_all
  also have "replace ''/blob/'' ''/'' B = B"
    using assms(4) by (intro replace_absent) simp_all
  finally have 1: "replace ''/blob/'' ''/'' (A @ ''/blob/'' @ B) = A @ ''/'' @ B" .
  have 2: "replace ''/raw/'' ''/'' (A @ ''/'' @ B) = A @ ''/'' @ B"
    using assms(5) by (intro replace_absent) simp_all
  have 3: "split ''?'' (A @ ''/'' @ B) = [A @ ''/'' @ B]"
    using assms(6) by (intro split_absent) simp_all
  show ?thesis
    by (simp only: rewrite_url_rest [OF assms(1) assms(2)] 1 2 3) simp
qed

lemma rewrite_url_raw:
  assumes "\<not> contains ''github.com/'' (P @ ''github.com'')"
    and "\<not> contains ''github.com/'' (A @ ''/raw/'' @ B)"
    and "\<not> contains ''/blob/'' (A @ ''/raw/'' @ B)"
    and "\<not> contains ''/raw/'' (A @ ''/raw'')"
    and "\<not> contains ''/raw/'' B"
    and "\<not> contains ''?'' (A @ ''/'' @ B)"
  shows "rewrite_url (P @ ''github.com/'' @ A @ ''/raw/'' @ B) =
           Inr (''https://raw.githubusercontent.com/'' @ replace ''%2F'' ''/'' (A @ ''/'' @ B))"
proof -
  have 1: "replace ''/blob/'' ''/'' (A @ ''/raw/'' @ B) = A @ ''/raw/'' @ B"
    using assms(3) by (intro replace_absent) simp_all
  have "\<not> contains ''/raw/'' (A @ butlast ''/raw/'')"
    using assms(4) by simp
  then have "replace ''/raw/'' ''/'' (A @ ''/raw/'' @ B) = A @ ''/'' @ replace ''/raw/'' ''/'' B"
    by (intro replace_first) simp_all
  also have "replace ''/raw/'' ''/'' B = B"
    using assms(5) by (intro replace_absent) simp_all
  finally have 2: "replace ''/raw/'' ''/'' (A @ ''/raw/'' @ B) = A @ ''/'' @ B" .
  have 3: "split ''?'' (A @ ''/'' @ B) = [A @ ''/'' @ B]"
    using assms(6) by (intro split_absent) simp_all
  show ?thesis
    by (simp only: rewrite_url_rest [OF assms(1) assms(2)] 1 2 3) simp
qed

lemma rewrite_url_raw_example:
  "rewrite_url (''https://'' @ ''github.com/'' @ ''o/r'' @ ''/raw/'' @ ''abc/src%2Fa.py'') =
     Inr ''https://raw.githubusercontent.com/o/r/abc/src/a.py''"
proof -
  have "rewrite_url (''https://'' @ ''github.com/'' @ ''o/r'' @ ''/raw/'' @ ''abc/src%2Fa.py'') =
     Inr (''https://raw.githubusercontent.com/'' @ replace ''%2F'' ''/'' (''o/r'' @ ''/'' @ ''abc/src%2Fa.py''))"
    by (rule rewrite_url_raw) simp_all
  then show ?thesis by simp
qed

text \<open>
  Claim C4, as stated, says that every location that is not a blob/raw viewer URL is
  requested verbatim. The code rewrites every location that contains \<^verbatim>\<open>github.com\<close>,
  viewer URL or not: an API location, which has neither a \<^verbatim>\<open>/blob/\<close> nor a \<^verbatim>\<open>/raw/\<close>
  segment, loses its host, and its query.
\<close>

theorem api_location_rewritten:
  "\<not> contains ''/blob/'' ''https://api.github.com/repos/o/r/contents/f?ref=main'' \<and>
   \<not> contains ''/raw/'' ''https://api.github.com/repos/o/r/contents/f?ref=main'' \<and>
   rewrite_url ''https://api.github.com/repos/o/r/contents/f?ref=main'' =
     Inr ''https://raw.githubusercontent.com/repos/o/r/contents/f'' \<and>
   rewrite_url ''https://api.github.com/repos/o/r/contents/f?ref=main'' \<noteq>
     Inr ''https://api.github.com/repos/o/r/contents/f?ref=main''"
  by (simp add: rewrite_url_def)

text \<open>
  Claim C4, amended: every location that does not contain \<^verbatim>\<open>github.com\<close> is used
  verbatim. The helper computes the location itself as the URL to request, and, once the
  destination's directories exist, the one request it makes is for exactly that location.
\<close>

theorem other_location_verbatim:
  assumes "\<not> contains ''github.com'' loc"
  shows "rewrite_url loc = Inr loc \<and>
         (mkdir_parents w dest = None \<longrightarrow>
            requests (trace (final (safe_download w loc dest st))) =
              requests (trace st) @ [(loc, dest)])"
  using assms
  by (simp add: rewrite_url_def safe_download_def Let_def split: retrieved.splits)

theorem other_location_verbatim_witness:
  "\<not> contains ''github.com'' ''https://example.com/a/b?x=1'' \<and>
   rewrite_url ''https://example.com/a/b?x=1'' = Inr ''https://example.com/a/b?x=1'' \<and>
   mkdir_parents (example_world (Inl (OSError ''down'')) (\<lambda>d. Saved ''hello'') (Inr 0)) ''/srv/b'' = None \<and>
   requests (trace (final (safe_download (example_world (Inl (OSError ''down'')) (\<lambda>d. Saved ''hello'') (Inr 0))
       ''https://example.com/a/b?x=1'' ''/srv/b'' fresh))) =
     [(''https://example.com/a/b?x=1'', ''/srv/b'')]"
proof -
  have h: "\<not> contains ''github.com'' ''https://example.com/a/b?x=1''"
    by simp
  have m: "mkdir_parents (example_world (Inl (OSError ''down'')) (\<lambda>d. Saved ''hello'') (Inr 0)) ''/srv/b'' = None"
    by (simp add: example_world_def)
  from other_location_verbatim [OF h, of "example_world (Inl (OSError ''down'')) (\<lambda>d. Saved ''hello'') (Inr 0)" "''/srv/b''" fresh]
  show ?thesis using h m by (simp add: fresh_def)
qed

section \<open>The file synchronizer\<close>







text \<open>
  Claim C5, as stated, says that a download is attempted for exactly the descriptors
  classified added or modified. Not for all of them: in a list whose second descriptor
  has no fetch location the cycle stops there, and the modified \<^verbatim>\<open>b.txt\<close> that follows
  is never attempted.
\<close>

theorem wanted_file_never_attempted:
  "urlopen_json malformed_world (commit_url example_config) (headers example_config) =
     Inr malformed_commit \<and>
   sha malformed_commit \<noteq> persisted fresh \<and>
   other_file \<in> set (changed_files malformed_commit) \<and>
   other_file ''status'' = Some ''modified'' \<and>
   dest_of malformed_world other_file = Some ''/srv/b.txt'' \<and>
   attempts (trace (cycle example_config malformed_world fresh)) = [''/srv/a.txt''] \<and>
   requests (trace (cycle example_config malformed_world fresh)) =
     [(''https://raw.githubusercontent.com/o/r/abc/a.txt'', ''/srv/a.txt'')]"
proof -
  have "urlopen_json malformed_world (commit_url example_config) (headers example_config) =
     Inr malformed_commit"
    by (simp add: malformed_world_def example_world_def)
  moreover have "sha malformed_commit \<noteq> persisted fresh"
    by (simp add: malformed_commit_def persisted_fresh)
  moreover have "other_file \<in> set (changed_files malformed_commit)"
    "other_file ''status'' = Some ''modified''"
    "dest_of malformed_world other_file = Some ''/srv/b.txt''"
    by (simp_all add: malformed_commit_def changed_files_def other_file_def dest_of_def
        malformed_world_def example_world_def)
  ultimately show ?thesis
    by (simp add: malformed_cycle)
qed

text \<open>
  Claim C5, amended: in a cycle with a new commit the download helper is called, in the
  order of the list, for descriptors classified added or modified only, up to the first
  of them that cannot be processed (it lacks its file name or fetch location, or the
  parent directories of its destination cannot be created), where the cycle stops; a
  retrieval is requested for exactly the descriptors processed whose location can be
  rewritten. When every added or modified descriptor can be processed these are all of
  them. Descriptors classified removed or otherwise never trigger a download.

  The retrievals requested and the files stored are given exactly; the calls of the
  helper include those for the descriptors processed and are among those for the added
  and modified descriptors.
\<close>

theorem downloads_only_for_added_or_modified:
  assumes f: "urlopen_json w (commit_url cfg) (headers cfg) = Inr c"
    and n: "sha c \<noteq> persisted st"
  shows "requests (trace (cycle cfg w st)) =
           requests (trace st) @
             List.map_filter (request_of w) (takeWhile (processable w) (filter wanted (changed_files c))) \<and>
         tree (cycle cfg w st) =
           tree st ++
             map_of (rev (List.map_filter (stored_by w)
               (takeWhile (processable w) (filter wanted (changed_files c))))) \<and>
         (\<exists>X. attempts (trace (cycle cfg w st)) = attempts (trace st) @ X \<and>
              prefix (map (dest_of w) (takeWhile (processable w) (filter wanted (changed_files c))))
                (map Some X) \<and>
              prefix (map Some X) (map (dest_of w) (filter wanted (changed_files c)))) \<and>
         ((\<forall>f\<in>set (changed_files c). wanted f \<longrightarrow>
             (\<exists>name u. f ''filename'' = Some name \<and> f ''raw_url'' = Some u \<and>
                mkdir_parents w (project_path w name) = None)) \<longrightarrow>
          requests (trace (cycle cfg w st)) =
            requests (trace st) @ List.map_filter (request_of w) (filter wanted (changed_files c)) \<and>
          map Some (attempts (trace (cycle cfg w st))) =
            map Some (attempts (trace st)) @ map (dest_of w) (filter wanted (changed_files c)))"
proof -
  let ?st0 = "emit (Urlopen (commit_url cfg) (headers cfg)) st"
  let ?r = "sync_files w (changed_files c) ?st0"
  let ?ws = "filter wanted (changed_files c)"
  note obs = cycle_changed_observations [OF f n]
  note rq = cycle_changed_requests [OF f n]
  obtain X where X: "attempts (trace (final ?r)) = attempts (trace ?st0) @ X"
    and lo: "prefix (map (dest_of w) (takeWhile (processable w) ?ws)) (map Some X)"
    using sync_files_attempts_lower [of w "changed_files c" ?st0] by blast
  obtain X' where X': "attempts (trace (final ?r)) = attempts (trace ?st0) @ X'"
    and up: "prefix (map Some X') (map (dest_of w) ?ws)"
    using sync_files_attempts_prefix [of w "changed_files c" ?st0] by blast
  have same: "X' = X" using X X' by simp
  have at: "attempts (trace (cycle cfg w st)) = attempts (trace st) @ X"
    using obs(1) X by simp
  have bounds: "\<exists>X. attempts (trace (cycle cfg w st)) = attempts (trace st) @ X \<and>
              prefix (map (dest_of w) (takeWhile (processable w) ?ws)) (map Some X) \<and>
              prefix (map Some X) (map (dest_of w) ?ws)"
    using at lo up same by blast
  have all: "requests (trace (cycle cfg w st)) =
            requests (trace st) @ List.map_filter (request_of w) ?ws \<and>
          map Some (attempts (trace (cycle cfg w st))) =
            map Some (attempts (trace st)) @ map (dest_of w) ?ws"
    if wf: "\<forall>f\<in>set (changed_files c). wanted f \<longrightarrow>
             (\<exists>name u. f ''filename'' = Some name \<and> f ''raw_url'' = Some u \<and>
                mkdir_parents w (project_path w name) = None)"
  proof -
    have tw: "takeWhile (processable w) ?ws = ?ws"
      using wf by (rule takeWhile_all_processable)
    obtain st1 where d: "?r = Done st1"
      using sync_files_Done [OF wf] by blast
    have "map Some (attempts (trace st1)) =
        map Some (attempts (trace ?st0)) @ map (dest_of w) ?ws"
      by (rule sync_files_attempts_Done [OF d])
    then have "map Some (attempts (trace (cycle cfg w st))) =
            map Some (attempts (trace st)) @ map (dest_of w) ?ws"
      using obs(1) d by simp
    then show ?thesis using rq(1) tw by simp
  qed
  show ?thesis
    using rq bounds all by blast
qed

text \<open>
  The example commit lists \<^verbatim>\<open>a.txt\<close> (added), \<^verbatim>\<open>c.txt\<close> (removed) and \<^verbatim>\<open>b.txt\<close>
  (modified): retrievals are requested for the first and the last.
\<close>

theorem downloads_only_for_added_or_modified_witness:
  "urlopen_json flaky_world (commit_url example_config) (headers example_config) = Inr example_commit \<and>
   sha example_commit \<noteq> persisted fresh \<and>
   changed_files example_commit = [example_file, removed_file, other_file] \<and>
   filter wanted (changed_files example_commit) = [example_file, other_file] \<and>
   takeWhile (processable flaky_world) (filter wanted (changed_files example_commit)) =
     [example_file, other_file] \<and>
   requests (trace (cycle example_config flaky_world fresh)) =
     [(''https://raw.githubusercontent.com/o/r/abc/a.txt'', ''/srv/a.txt''),
      (''https://raw.githubusercontent.com/o/r/abc/b.txt'', ''/srv/b.txt'')] \<and>
   tree (cycle example_config flaky_world fresh) = [''/srv/b.txt'' \<mapsto> ''new''] \<and>
   map Some (attempts (trace (cycle example_config flaky_world fresh))) =
     [Some ''/srv/a.txt'', Some ''/srv/b.txt'']"
proof -
  have n: "sha example_commit \<noteq> persisted fresh"
    by (simp add: example_commit_def persisted_fresh)
  have c: "changed_files example_commit = [example_file, removed_file, other_file]"
    by (simp add: example_commit_def changed_files_def)
  have p: "takeWhile (processable flaky_world) (filter wanted (changed_files example_commit)) =
     [example_file, other_file]"
    using takeWhile_all_processable [OF example_files_well_formed] by (simp add: example_wanted)
  have m: "dest_of flaky_world example_file = Some ''/srv/a.txt''"
    "dest_of flaky_world other_file = Some ''/srv/b.txt''"
    by (simp_all add: example_defs dest_of_def)
  have t: "tree fresh = Map.empty" "requests (trace fresh) = []" "attempts (trace fresh) = []"
    by (simp_all add: fresh_def)
  from downloads_only_for_added_or_modified [OF flaky_fetch n] example_files_well_formed
  have "requests (trace (cycle example_config flaky_world fresh)) =
           requests (trace fresh) @
             List.map_filter (request_of flaky_world)
               (takeWhile (processable flaky_world) (filter wanted (changed_files example_commit)))"
    and "tree (cycle example_config flaky_world fresh) =
           tree fresh ++
             map_of (rev (List.map_filter (stored_by flaky_world)
               (takeWhile (processable flaky_world) (filter wanted (changed_files example_commit)))))"
    and "map Some (attempts (trace (cycle example_config flaky_world fresh))) =
            map Some (attempts (trace fresh)) @
              map (dest_of flaky_world) (filter wanted (changed_files example_commit))"
    by blast+
  then have "requests (trace (cycle example_config flaky_world fresh)) =
     [(''https://raw.githubusercontent.com/o/r/abc/a.txt'', ''/srv/a.txt''),
      (''https://raw.githubusercontent.com/o/r/abc/b.txt'', ''/srv/b.txt'')]"
    and "tree (cycle example_config flaky_world fresh) = [''/srv/b.txt'' \<mapsto> ''new'']"
    and "map Some (attempts (trace (cycle example_config flaky_world fresh))) =
     [Some ''/srv/a.txt'', Some ''/srv/b.txt'']"
    using p by (simp_all add: t m example_wanted example_requests)
  then show ?thesis
    using flaky_fetch n c example_wanted p by blast
qed



section \<open>The daemon loop\<close>

text \<open>
  Claim C6: when the commit fetch fails, the cycle writes no file and leaves the state
  file unchanged, logs the error, and reaches the sleep; no exception raised inside a
  cycle body ends the loop.

  After a failed fetch the working tree and the state file are as before and the
  effects of the cycle are the request, the error line, the stack trace and the sleep.
  Every cycle, whatever happens in it, ends with the sleep, and a daemon that has gone
  through any sequence of worlds has fetched once and slept once in each of them.
\<close>

theorem fetch_failure_skips_cycle:
  assumes "urlopen_json w (commit_url cfg) (headers cfg) = Inl e"
  shows "tree (cycle cfg w st) = tree st \<and>
         commit_file (cycle cfg w st) = commit_file st \<and>
         trace (cycle cfg w st) =
           trace st @ [Urlopen (commit_url cfg) (headers cfg), Print (Error e), Print (Traceback e),
                       Sleep (INTERVAL cfg)] \<and>
         last (trace (cycle cfg w' st')) = Sleep (INTERVAL cfg) \<and>
         sleeps (trace (run_autosync_daemon cfg ws st')) =
           sleeps (trace st') @ replicate (length ws) (INTERVAL cfg) \<and>
         fetches (trace (run_autosync_daemon cfg ws st')) =
           fetches (trace st') @ replicate (length ws) (commit_url cfg)"
proof -
  have "cycle_body cfg w st = Raised e (emit (Urlopen (commit_url cfg) (headers cfg)) st)"
    using assms by (simp add: cycle_body_def fetch_commit_def)
  then have "cycle cfg w st =
      emit (Sleep (INTERVAL cfg)) (emit (Print (Traceback e)) (emit (Print (Error e))
        (emit (Urlopen (commit_url cfg) (headers cfg)) st)))"
    by (simp add: cycle_def)
  then have "tree (cycle cfg w st) = tree st" "commit_file (cycle cfg w st) = commit_file st"
    "trace (cycle cfg w st) =
           trace st @ [Urlopen (commit_url cfg) (headers cfg), Print (Error e), Print (Traceback e),
                       Sleep (INTERVAL cfg)]"
    by simp_all
  moreover have "sleeps (trace (run_autosync_daemon cfg ws st')) =
           sleeps (trace st') @ replicate (length ws) (INTERVAL cfg)"
    by (simp add: run_autosync_daemon_def daemon_from_sleeps)
  moreover have "fetches (trace (run_autosync_daemon cfg ws st')) =
           fetches (trace st') @ replicate (length ws) (commit_url cfg)"
    by (simp add: run_autosync_daemon_def daemon_from_fetches)
  ultimately show ?thesis using cycle_last by blast
qed

text \<open>The commit endpoint times out twice in a row.\<close>

theorem fetch_failure_skips_cycle_witness:
  "urlopen_json offline_world (commit_url example_config) (headers example_config) =
     Inl (OSError ''timed out'') \<and>
   tree (cycle example_config offline_world synced) = Map.empty \<and>
   commit_file (cycle example_config offline_world synced) = Some ''abc'' \<and>
   trace (cycle example_config offline_world synced) =
     [Urlopen ''https://api.github.com/repos/o/r/commits/main'' [],
      Print (Error (OSError ''timed out'')), Print (Traceback (OSError ''timed out'')), Sleep 300] \<and>
   sleeps (trace (run_autosync_daemon example_config [offline_world, offline_world] synced)) = [300, 300] \<and>
   fetches (trace (run_autosync_daemon example_config [offline_world, offline_world] synced)) =
     [''https://api.github.com/repos/o/r/commits/main'', ''https://api.github.com/repos/o/r/commits/main'']"
proof -
  have h: "urlopen_json offline_world (commit_url example_config) (headers example_config) =
     Inl (OSError ''timed out'')"
    by (simp add: offline_world_def example_world_def)
  from fetch_failure_skips_cycle [OF h, of synced offline_world synced "[offline_world, offline_world]"]
  show ?thesis
    using h by (simp add: synced_def example_config_def commit_url_def headers_def)
qed

text \<open>
  Claim C7, as stated, concludes that a second consecutive cycle against an unchanged
  remote head changes nothing. After a cycle that was aborted it does: the head whose
  second descriptor has no fetch location is not persisted by the first cycle, and the
  second cycle against the same head requests \<^verbatim>\<open>a.txt\<close> again.
\<close>

theorem aborted_cycle_is_repeated:
  "urlopen_json malformed_world (commit_url example_config) (headers example_config) =
     Inr malformed_commit \<and>
   sha malformed_commit = Some ''abc'' \<and>
   requests (trace (cycle example_config malformed_world fresh)) =
     [(''https://raw.githubusercontent.com/o/r/abc/a.txt'', ''/srv/a.txt'')] \<and>
   commit_file (cycle example_config malformed_world fresh) = None \<and>
   requests (trace (cycle example_config malformed_world (cycle example_config malformed_world fresh))) =
     [(''https://raw.githubusercontent.com/o/r/abc/a.txt'', ''/srv/a.txt''),
      (''https://raw.githubusercontent.com/o/r/abc/a.txt'', ''/srv/a.txt'')]"
proof -
  have "urlopen_json malformed_world (commit_url example_config) (headers example_config) =
     Inr malformed_commit"
    by (simp add: malformed_world_def example_world_def)
  moreover have "sha malformed_commit = Some ''abc''"
    by (simp add: malformed_commit_def)
  moreover have "requests (trace (cycle example_config malformed_world fresh)) =
     [(''https://raw.githubusercontent.com/o/r/abc/a.txt'', ''/srv/a.txt'')]"
    "commit_file (cycle example_config malformed_world fresh) = None"
    by (simp_all add: malformed_cycle)
  ultimately show ?thesis
    using malformed_cycle_again by blast
qed

text \<open>
  Claim C7, amended: a cycle whose fetched head hash equals the persisted hash (the
  content of the state file as read in text mode, without surrounding whitespace) is a
  no-op: no file is written, the state file is not touched, "no new commits" is logged.
  A second consecutive cycle against an unchanged remote head changes nothing when the
  first cycle left the hash of the head persisted; it does so when it was itself a
  no-op, and when it synchronised the head, every added or modified descriptor being
  processed, and the hash reads back as it was written.

  The first part is the no-op, the second the synchronising first cycle, the third the
  second cycle, whose effects are the request, the log line and the sleep.
\<close>

theorem unchanged_head_is_noop:
  assumes h: "urlopen_json w (commit_url cfg) (headers cfg) = Inr c" "sha c = Some s"
    and h': "urlopen_json w' (commit_url cfg) (headers cfg) = Inr c'" "sha c' = Some s"
  shows "(persisted st = Some s \<longrightarrow>
            tree (cycle cfg w st) = tree st \<and>
            commit_file (cycle cfg w st) = commit_file st \<and>
            trace (cycle cfg w st) =
              trace st @ [Urlopen (commit_url cfg) (headers cfg), Print (NoNewCommits (take 8 s)),
                          Sleep (INTERVAL cfg)] \<and>
            persisted (cycle cfg w st) = Some s) \<and>
         (persisted st \<noteq> Some s \<and> strip (read_text s) = s \<and>
          (\<forall>f\<in>set (changed_files c). wanted f \<longrightarrow>
             (\<exists>name u. f ''filename'' = Some name \<and> f ''raw_url'' = Some u \<and>
                mkdir_parents w (project_path w name) = None)) \<longrightarrow>
            commit_file (cycle cfg w st) = Some s \<and> persisted (cycle cfg w st) = Some s) \<and>
         (persisted (cycle cfg w st) = Some s \<longrightarrow>
            tree (cycle cfg w' (cycle cfg w st)) = tree (cycle cfg w st) \<and>
            commit_file (cycle cfg w' (cycle cfg w st)) = commit_file (cycle cfg w st) \<and>
            trace (cycle cfg w' (cycle cfg w st)) =
              trace (cycle cfg w st) @
                [Urlopen (commit_url cfg) (headers cfg), Print (NoNewCommits (take 8 s)),
                 Sleep (INTERVAL cfg)])"
proof -
  have 1: "tree (cycle cfg w st) = tree st \<and>
            commit_file (cycle cfg w st) = commit_file st \<and>
            trace (cycle cfg w st) =
              trace st @ [Urlopen (commit_url cfg) (headers cfg), Print (NoNewCommits (take 8 s)),
                          Sleep (INTERVAL cfg)] \<and>
            persisted (cycle cfg w st) = Some s"
    if p: "persisted st = Some s"
    using p by (simp add: cycle_noop [OF h p])
  have 2: "commit_file (cycle cfg w st) = Some s \<and> persisted (cycle cfg w st) = Some s"
    if n: "persisted st \<noteq> Some s" and r: "strip (read_text s) = s"
      and wf: "\<forall>f\<in>set (changed_files c). wanted f \<longrightarrow>
             (\<exists>name u. f ''filename'' = Some name \<and> f ''raw_url'' = Some u \<and>
                mkdir_parents w (project_path w name) = None)"
  proof -
    obtain st1 where d: "sync_files w (changed_files c) (emit (Urlopen (commit_url cfg) (headers cfg)) st) = Done st1"
      using sync_files_Done [OF wf] by blast
    have "commit_file (cycle cfg w st) = Some s"
      by (rule cycle_synced(1) [OF h n d])
    then show ?thesis using r by (simp add: persisted_def)
  qed
  have 3: "tree (cycle cfg w' (cycle cfg w st)) = tree (cycle cfg w st) \<and>
            commit_file (cycle cfg w' (cycle cfg w st)) = commit_file (cycle cfg w st) \<and>
            trace (cycle cfg w' (cycle cfg w st)) =
              trace (cycle cfg w st) @
                [Urlopen (commit_url cfg) (headers cfg), Print (NoNewCommits (take 8 s)),
                 Sleep (INTERVAL cfg)]"
    if p: "persisted (cycle cfg w st) = Some s"
    by (simp add: cycle_noop [OF h' p])
  show ?thesis using 1 2 3 by blast
qed

text \<open>
  Two cycles from a state file that holds \<^verbatim>\<open>abc\<close>, the head of the remote, and two
  cycles from no state file, the first of which synchronises \<^verbatim>\<open>abc\<close>.
\<close>

theorem unchanged_head_is_noop_witness:
  "urlopen_json flaky_world (commit_url example_config) (headers example_config) = Inr example_commit \<and>
   sha example_commit = Some ''abc'' \<and>
   persisted synced = Some ''abc'' \<and>
   tree (cycle example_config flaky_world synced) = tree synced \<and>
   commit_file (cycle example_config flaky_world synced) = Some ''abc'' \<and>
   trace (cycle example_config flaky_world synced) =
     [Urlopen ''https://api.github.com/repos/o/r/commits/main'' [], Print (NoNewCommits ''abc''), Sleep 300] \<and>
   trace (cycle example_config flaky_world (cycle example_config flaky_world synced)) =
     [Urlopen ''https://api.github.com/repos/o/r/commits/main'' [], Print (NoNewCommits ''abc''), Sleep 300,
      Urlopen ''https://api.github.com/repos/o/r/commits/main'' [], Print (NoNewCommits ''abc''), Sleep 300] \<and>
   persisted fresh \<noteq> Some ''abc'' \<and> strip (read_text ''abc'') = ''abc'' \<and>
   persisted (cycle example_config flaky_world fresh) = Some ''abc'' \<and>
   tree (cycle example_config flaky_world (cycle example_config flaky_world fresh)) =
     tree (cycle example_config flaky_world fresh) \<and>
   commit_file (cycle example_config flaky_world (cycle example_config flaky_world fresh)) = Some ''abc'' \<and>
   trace (cycle example_config flaky_world (cycle example_config flaky_world fresh)) =
     trace (cycle example_config flaky_world fresh) @
       [Urlopen ''https://api.github.com/repos/o/r/commits/main'' [], Print (NoNewCommits ''abc''), Sleep 300]"
proof -
  have s: "sha example_commit = Some ''abc''"
    by (simp add: example_commit_def)
  have n: "persisted fresh \<noteq> Some ''abc''"
    by (simp add: persisted_fresh)
  have v: "commit_url example_config = ''https://api.github.com/repos/o/r/commits/main''"
    "headers example_config = []" "INTERVAL example_config = 300"
    by (simp_all add: commit_url_def headers_def example_config_def)
  have t: "trace synced = []" "commit_file synced = Some ''abc''"
    by (simp_all add: synced_def)
  note a = unchanged_head_is_noop [OF flaky_fetch s flaky_fetch s, of synced]
  have a1: "tree (cycle example_config flaky_world synced) = tree synced"
    "commit_file (cycle example_config flaky_world synced) = commit_file synced"
    "trace (cycle example_config flaky_world synced) =
       trace synced @ [Urlopen (commit_url example_config) (headers example_config),
         Print (NoNewCommits (take 8 ''abc'')), Sleep (INTERVAL example_config)]"
    "persisted (cycle example_config flaky_world synced) = Some ''abc''"
    using a persisted_synced by blast+
  have a2: "trace (cycle example_config flaky_world (cycle example_config flaky_world synced)) =
      trace (cycle example_config flaky_world synced) @
        [Urlopen (commit_url example_config) (headers example_config),
         Print (NoNewCommits (take 8 ''abc'')), Sleep (INTERVAL example_config)]"
    using a a1(4) by blast
  note b = unchanged_head_is_noop [OF flaky_fetch s flaky_fetch s, of fresh]
  have b1: "commit_file (cycle example_config flaky_world fresh) = Some ''abc''"
    "persisted (cycle example_config flaky_world fresh) = Some ''abc''"
    using b n abc_reads_back example_files_well_formed by blast+
  have b2: "tree (cycle example_config flaky_world (cycle example_config flaky_world fresh)) =
     tree (cycle example_config flaky_world fresh)"
    "commit_file (cycle example_config flaky_world (cycle example_config flaky_world fresh)) =
     commit_file (cycle example_config flaky_world fresh)"
    "trace (cycle example_config flaky_world (cycle example_config flaky_world fresh)) =
     trace (cycle example_config flaky_world fresh) @
        [Urlopen (commit_url example_config) (headers example_config),
         Print (NoNewCommits (take 8 ''abc'')), Sleep (INTERVAL example_config)]"
    using b b1(2) by blast+
  show ?thesis
    using flaky_fetch s persisted_synced n abc_reads_back a1 a2 b1 b2
    by (simp add: v t)
qed

section \<open>The push publisher\<close>

text \<open>
  Claim C8, as stated, says that a failing step is logged and that every later step
  still runs. Neither holds in general. Where every command exits with status 1 the
  publisher runs all six and its only log line announces the push. Where the first
  command cannot be started, the exception leaves the loop: one command was run, and
  the log line is the failure of the whole push.
\<close>

theorem failed_step_not_logged:
  "subprocess_run failing_git_world [''git'', ''pull'', ''https://@github.com/o/r.git'', ''main'', ''--rebase''] = Inr 1 \<and>
   runs (trace (git_push_auto example_config failing_git_world fresh)) =
     push_cmds example_config ''Automated patch sync: 2024-03-09 07:05:00'' \<and>
   lines (trace (git_push_auto example_config failing_git_world fresh)) =
     [AutoPushed ''Automated patch sync: 2024-03-09 07:05:00''] \<and>
   subprocess_run no_git_world
     [''git'', ''config'', ''--global'', ''user.email'', ''auto@prosperitytoolbox.dev''] =
     Inl (OSError ''No such file or directory'') \<and>
   trace (git_push_auto example_config no_git_world fresh) =
     [Run [''git'', ''config'', ''--global'', ''user.email'', ''auto@prosperitytoolbox.dev''],
      Print (PushFailed (OSError ''No such file or directory''))]"
proof -
  have "trace (git_push_auto example_config no_git_world fresh) =
     [Run [''git'', ''config'', ''--global'', ''user.email'', ''auto@prosperitytoolbox.dev''],
      Print (PushFailed (OSError ''No such file or directory''))]"
    by (simp add: git_push_auto_def push_cmds_def example_defs emit_def Let_def)
  moreover have "subprocess_run failing_git_world [''git'', ''pull'', ''https://@github.com/o/r.git'', ''main'', ''--rebase''] = Inr 1"
    "subprocess_run no_git_world
     [''git'', ''config'', ''--global'', ''user.email'', ''auto@prosperitytoolbox.dev''] =
     Inl (OSError ''No such file or directory'')"
    by (simp_all add: example_defs)
  moreover have "push_cmds example_config ''Automated patch sync: 2024-03-09 07:05:00'' =
     [[''git'', ''config'', ''--global'', ''user.email'', ''auto@prosperitytoolbox.dev''],
      [''git'', ''config'', ''--global'', ''user.name'', ''AutoSync Daemon''],
      [''git'', ''pull'', ''https://@github.com/o/r.git'', ''main'', ''--rebase''],
      [''git'', ''add'', ''.''],
      [''git'', ''commit'', ''-m'', ''Automated patch sync: 2024-03-09 07:05:00''],
      [''git'', ''push'', ''https://@github.com/o/r.git'', ''main'']]"
    by (simp add: push_cmds_def example_config_def)
  ultimately show ?thesis
    by (simp add: failing_git_push)
qed

text \<open>
  Claim C8, amended: when push is enabled, the publisher runs its steps in order: the
  committer identity (two commands), the pull of the branch with rebase, the staging of
  all changes, the commit whose message carries the UTC timestamp formatted
  \<^verbatim>\<open>YYYY-MM-DD HH:MM:SS\<close>, and the push of the branch. The exit status of a step is
  ignored: whether it is zero or not, nothing is logged for the step and every later
  step still runs, and after the last one the publisher logs the push.

  The hypothesis is that every command starts and returns an exit status, whatever it
  is. The last two parts place the publisher in the cycle: with push disabled no
  command is run, with push enabled a cycle that has synchronised a new commit runs
  the six commands.
\<close>

theorem publisher_runs_every_step:
  assumes ok: "\<forall>cmd\<in>set (push_cmds cfg (push_message w)). \<exists>rc. subprocess_run w cmd = Inr rc"
  shows "trace (git_push_auto cfg w st) =
           trace st @ map Run (push_cmds cfg (push_message w)) @ [Print (AutoPushed (push_message w))] \<and>
         runs (trace (git_push_auto cfg w st)) = runs (trace st) @ push_cmds cfg (push_message w) \<and>
         lines (trace (git_push_auto cfg w st)) = lines (trace st) @ [AutoPushed (push_message w)] \<and>
         map (take 2) (push_cmds cfg (push_message w)) =
           [[''git'', ''config''], [''git'', ''config''], [''git'', ''pull''], [''git'', ''add''],
            [''git'', ''commit''], [''git'', ''push'']] \<and>
         last (push_cmds cfg (push_message w) ! 2) = ''--rebase'' \<and>
         push_cmds cfg (push_message w) ! 4 =
           [''git'', ''commit'', ''-m'', ''Automated patch sync: '' @ strftime (utcnow w)] \<and>
         length (strftime (utcnow w)) = 19 \<and>
         strftime (utcnow w) ! 4 = CHR ''-'' \<and> strftime (utcnow w) ! 7 = CHR ''-'' \<and>
         strftime (utcnow w) ! 10 = CHR '' '' \<and>
         strftime (utcnow w) ! 13 = CHR '':'' \<and> strftime (utcnow w) ! 16 = CHR '':'' \<and>
         (\<forall>i\<in>{0, 1, 2, 3, 5, 6, 8, 9, 11, 12, 14, 15, 17, 18}.
            strftime (utcnow w) ! i \<in> set ''0123456789'') \<and>
         (\<not> AUTO_PUSH cfg \<longrightarrow> runs (trace (cycle cfg w st)) = runs (trace st)) \<and>
         (AUTO_PUSH cfg \<and> urlopen_json w (commit_url cfg) (headers cfg) = Inr c \<and>
          sha c = Some s \<and> persisted st \<noteq> Some s \<and>
          (\<forall>f\<in>set (changed_files c). wanted f \<longrightarrow>
              (\<exists>name u. f ''filename'' = Some name \<and> f ''raw_url'' = Some u \<and>
                 mkdir_parents w (project_path w name) = None)) \<longrightarrow>
          runs (trace (cycle cfg w st)) = runs (trace st) @ push_cmds cfg (push_message w))"
proof -
  have t: "trace (git_push_auto cfg w st) =
           trace st @ map Run (push_cmds cfg (push_message w)) @ [Print (AutoPushed (push_message w))]"
    by (simp add: git_push_auto_def Let_def run_cmds_all [OF ok])
  have r: "runs (trace (git_push_auto cfg w st)) = runs (trace st) @ push_cmds cfg (push_message w)"
    by (simp add: t)
  have l: "lines (trace (git_push_auto cfg w st)) = lines (trace st) @ [AutoPushed (push_message w)]"
    by (simp add: t)
  have c: "map (take 2) (push_cmds cfg (push_message w)) =
           [[''git'', ''config''], [''git'', ''config''], [''git'', ''pull''], [''git'', ''add''],
            [''git'', ''commit''], [''git'', ''push'']]"
       "last (push_cmds cfg (push_message w) ! 2) = ''--rebase''"
       "push_cmds cfg (push_message w) ! 4 =
           [''git'', ''commit'', ''-m'', ''Automated patch sync: '' @ strftime (utcnow w)]"
    by (simp_all add: push_cmds_def push_message_def)
  have off: "\<not> AUTO_PUSH cfg \<longrightarrow> runs (trace (cycle cfg w st)) = runs (trace st)"
    using cycle_runs_disabled by blast
  have on: "AUTO_PUSH cfg \<and> urlopen_json w (commit_url cfg) (headers cfg) = Inr c \<and>
          sha c = Some s \<and> persisted st \<noteq> Some s \<and>
          (\<forall>f\<in>set (changed_files c). wanted f \<longrightarrow>
              (\<exists>name u. f ''filename'' = Some name \<and> f ''raw_url'' = Some u \<and>
                 mkdir_parents w (project_path w name) = None)) \<longrightarrow>
          runs (trace (cycle cfg w st)) = runs (trace st) @ push_cmds cfg (push_message w)"
    using cycle_runs_enabled [of cfg w c s st] ok by blast
  show ?thesis
    using t r l c strftime_format [of "utcnow w"] off on by blast
qed

text \<open>
  Every command exits with status 1, and all six are run, by the publisher alone and
  in a cycle with push enabled; with push disabled the cycle runs none.
\<close>

theorem publisher_runs_every_step_witness:
  "subprocess_run failing_git_world [''git'', ''add'', ''.''] = Inr 1 \<and>
   push_message failing_git_world = ''Automated patch sync: 2024-03-09 07:05:00'' \<and>
   runs (trace (git_push_auto example_config failing_git_world fresh)) =
     push_cmds example_config (push_message failing_git_world) \<and>
   lines (trace (git_push_auto example_config failing_git_world fresh)) =
     [AutoPushed (push_message failing_git_world)] \<and>
   runs (trace (cycle example_config failing_git_world fresh)) = [] \<and>
   runs (trace (cycle (example_config\<lparr>AUTO_PUSH := True\<rparr>) failing_git_world fresh)) =
     push_cmds example_config (push_message failing_git_world)"
proof -
  let ?on = "example_config\<lparr>AUTO_PUSH := True\<rparr>"
  have h: "\<forall>cmd\<in>set (push_cmds cfg (push_message failing_git_world)).
      \<exists>rc. subprocess_run failing_git_world cmd = Inr rc" for cfg
    by (simp add: failing_git_world_def example_world_def)
  have m: "push_message failing_git_world = ''Automated patch sync: 2024-03-09 07:05:00''"
    by (simp add: push_message_def strftime_def pad2_def pad4_def digit_def example_defs)
  have a: "subprocess_run failing_git_world [''git'', ''add'', ''.''] = Inr 1"
    by (simp add: failing_git_world_def example_world_def)
  have off: "\<not> AUTO_PUSH example_config" and on: "AUTO_PUSH ?on"
    by (simp_all add: example_config_def)
  have f: "urlopen_json failing_git_world (commit_url ?on) (headers ?on) = Inr example_commit"
    by (simp add: failing_git_world_def example_world_def)
  have s: "sha example_commit = Some ''abc''"
    by (simp add: example_commit_def)
  have n: "persisted fresh \<noteq> Some ''abc''"
    by (simp add: fresh_def persisted_def)
  have wf: "\<forall>f\<in>set (changed_files example_commit). wanted f \<longrightarrow>
     (\<exists>name u. f ''filename'' = Some name \<and> f ''raw_url'' = Some u \<and>
        mkdir_parents failing_git_world (project_path failing_git_world name) = None)"
    by (simp add: example_defs changed_files_def wanted_def)
  have p: "push_cmds ?on msg = push_cmds example_config msg" for msg
    by (simp add: push_cmds_def)
  from publisher_runs_every_step [OF h, of example_config fresh]
  have 1: "runs (trace (git_push_auto example_config failing_git_world fresh)) =
          runs (trace fresh) @ push_cmds example_config (push_message failing_git_world)"
    and 2: "lines (trace (git_push_auto example_config failing_git_world fresh)) =
          lines (trace fresh) @ [AutoPushed (push_message failing_git_world)]"
    and 3: "\<not> AUTO_PUSH example_config \<longrightarrow>
          runs (trace (cycle example_config failing_git_world fresh)) = runs (trace fresh)"
    by blast+
  from publisher_runs_every_step [OF h, of ?on fresh example_commit "''abc''"] on f s n wf
  have 4: "runs (trace (cycle ?on failing_git_world fresh)) =
          runs (trace fresh) @ push_cmds ?on (push_message failing_git_world)"
    by blast
  show ?thesis
    using 1 2 3 4 off a m by (simp add: fresh_trace p)
qed

end
